theory Spec2Isabelle
  imports Main "HOL-Library.Char_ord" "HOL-Library.List_Lexorder" "HOL-Library.Sublist"
    "HOL-Library.While_Combinator"
begin

section \<open>Feature installation order (containerFeaturesOrder.ts)\<close>

text \<open>
  A shallow embedding of \<^verbatim>\<open>src/spec-configuration/containerFeaturesOrder.ts\<close>.
  JavaScript strings are modelled as \<^typ>\<open>string\<close>: one \<^typ>\<open>char\<close> per UTF-16 code unit
  (code units below 256). Exceptions are values of the type \<open>error\<close>; a computation that can
  throw returns \<open>error + 'a\<close> with \<open>Inl\<close> for the exception.
\<close>

subsection \<open>Errors, log output and small JavaScript library functions\<close>

datatype error = TypeError | SyntaxError | Error string

datatype LogLevel = Info | Error_level

text \<open>
  What a computation does to its environment, in sequence: a line written with
  \<^verbatim>\<open>params.output.write\<close>, or a manifest fetched for an identifier.
\<close>

datatype event = Log string LogLevel | FetchManifest string

text \<open>\<^verbatim>\<open>xs.join(sep)\<close> on an array of strings.\<close>

fun join :: "string \<Rightarrow> string list \<Rightarrow> string" where
  "join sep [] = []"
| "join sep [x] = x"
| "join sep (x # y # ys) = x @ sep @ join sep (y # ys)"

text \<open>
  \<^verbatim>\<open>s.split(':')[0]\<close>: the part of \<open>s\<close> before the first
  colon.
\<close>

definition split_colon_0 :: "string \<Rightarrow> string" where
  "split_colon_0 s = takeWhile (\<lambda>c. c \<noteq> CHR '':'') s"

text \<open>
  \<^verbatim>\<open>xs.sort(cmp)\<close>. The comparator may throw, so the sequence of comparator calls matters;
  ECMAScript leaves it to the implementation, and the model follows the sort of V8, the engine
  of Node, for an array of fewer than 64 elements: an array of fewer than two elements is
  returned as it is, without a call; otherwise the longest run at the front is found (strictly
  descending when the second element compares below the first, and then reversed; ascending
  otherwise) and the remaining elements are inserted one by one, from left to right, by binary
  search. Every call is \<^verbatim>\<open>cmp(later, earlier)\<close>: the first argument stands to the right of the
  second in the array. V8 merges a longer array from several such runs; the model sorts it as one
  run, which gives the same list when the comparator is a total order on the elements.
\<close>

definition runBreaks :: "bool \<Rightarrow> int \<Rightarrow> bool" where
  "runBreaks isDescending order = (if isDescending then order \<ge> 0 else order < 0)"

fun extendRun ::
  "('a \<Rightarrow> 'a \<Rightarrow> error + int) \<Rightarrow> bool \<Rightarrow> 'a \<Rightarrow> 'a list \<Rightarrow> 'a list \<Rightarrow> error + 'a list \<times> 'a list"
where
  "extendRun cmp isDescending previous run [] = Inr (run, [])"
| "extendRun cmp isDescending previous run (c # cs) =
     (case cmp c previous of
        Inl e \<Rightarrow> Inl e
      | Inr order \<Rightarrow>
          if runBreaks isDescending order then Inr (run, c # cs)
          else extendRun cmp isDescending c (run @ [c]) cs)"

definition countAndMakeRun ::
  "('a \<Rightarrow> 'a \<Rightarrow> error + int) \<Rightarrow> 'a \<Rightarrow> 'a \<Rightarrow> 'a list \<Rightarrow> error + 'a list \<times> 'a list"
where
  "countAndMakeRun cmp x0 x1 xs =
     (case cmp x1 x0 of
        Inl e \<Rightarrow> Inl e
      | Inr order \<Rightarrow>
          (case extendRun cmp (order < 0) x1 [x0, x1] xs of
             Inl e \<Rightarrow> Inl e
           | Inr (run, rest) \<Rightarrow> Inr (if order < 0 then rev run else run, rest)))"

function binarySearch ::
  "('a \<Rightarrow> 'a \<Rightarrow> error + int) \<Rightarrow> 'a \<Rightarrow> 'a list \<Rightarrow> nat \<Rightarrow> nat \<Rightarrow> error + nat"
where
  "binarySearch cmp pivot xs left right =
     (if left < right then
        (case cmp pivot (xs ! (left + (right - left) div 2)) of
           Inl e \<Rightarrow> Inl e
         | Inr order \<Rightarrow>
             if order < 0 then binarySearch cmp pivot xs left (left + (right - left) div 2)
             else binarySearch cmp pivot xs (left + (right - left) div 2 + 1) right)
      else Inr left)"
  by pat_completeness auto
termination
  by (relation "measure (\<lambda>(cmp, pivot, xs, left, right). right - left)") auto

declare binarySearch.simps [simp del]

fun binaryInsertionSort ::
  "('a \<Rightarrow> 'a \<Rightarrow> error + int) \<Rightarrow> 'a list \<Rightarrow> 'a list \<Rightarrow> error + 'a list"
where
  "binaryInsertionSort cmp run [] = Inr run"
| "binaryInsertionSort cmp run (pivot # rest) =
     (case binarySearch cmp pivot run 0 (length run) of
        Inl e \<Rightarrow> Inl e
      | Inr left \<Rightarrow>
          binaryInsertionSort cmp (take left run @ [pivot] @ drop left run) rest)"

fun sort_by :: "('a \<Rightarrow> 'a \<Rightarrow> error + int) \<Rightarrow> 'a list \<Rightarrow> error + 'a list" where
  "sort_by cmp (x0 # x1 # xs) =
     (case countAndMakeRun cmp x0 x1 xs of
        Inl e \<Rightarrow> Inl e
      | Inr (run, rest) \<Rightarrow> binaryInsertionSort cmp run rest)"
| "sort_by cmp xs = Inr xs"

subsection \<open>Option values and \<^verbatim>\<open>JSON.stringify\<close>\<close>

text \<open>
  \<^verbatim>\<open>options?: string | boolean | Record<string, string | boolean | undefined>\<close>.
  A record is the list of its own properties in the order JavaScript enumerates them
  (for keys that are not array indices: insertion order).
\<close>

datatype optionValue = OString string | OBool bool

datatype options =
    Undefined
  | Str string
  | Bool bool
  | Rec "(string \<times> optionValue option) list"

definition hexDigit :: "nat \<Rightarrow> char" where
  "hexDigit n = ''0123456789abcdef'' ! (n mod 16)"

text \<open>The escape of one code unit inside a JSON string (QuoteJSONString).\<close>

definition quoteChar :: "char \<Rightarrow> string" where
  "quoteChar c =
     (if c = CHR 0x22 then [CHR 0x5C, CHR 0x22]
      else if c = CHR 0x5C then [CHR 0x5C, CHR 0x5C]
      else if c = CHR 0x08 then [CHR 0x5C, CHR ''b'']
      else if c = CHR 0x09 then [CHR 0x5C, CHR ''t'']
      else if c = CHR 0x0A then [CHR 0x5C, CHR ''n'']
      else if c = CHR 0x0C then [CHR 0x5C, CHR ''f'']
      else if c = CHR 0x0D then [CHR 0x5C, CHR ''r'']
      else if (of_char c :: nat) < 32
        then [CHR 0x5C, CHR ''u'', CHR ''0'', CHR ''0'',
              hexDigit (of_char c div 16), hexDigit (of_char c)]
      else [c])"

definition quoteJSONString :: "string \<Rightarrow> string" where
  "quoteJSONString s = [CHR 0x22] @ concat (map quoteChar s) @ [CHR 0x22]"

definition stringifyValue :: "optionValue \<Rightarrow> string" where
  "stringifyValue v =
     (case v of
        OString s \<Rightarrow> quoteJSONString s
      | OBool b \<Rightarrow> (if b then ''true'' else ''false''))"

text \<open>
  The members of an object: a property whose value is \<^verbatim>\<open>undefined\<close> is
  left out.
\<close>

fun stringifyMembers :: "(string \<times> optionValue option) list \<Rightarrow> string list" where
  "stringifyMembers [] = []"
| "stringifyMembers ((k, None) # kvs) = stringifyMembers kvs"
| "stringifyMembers ((k, Some v) # kvs) =
     (quoteJSONString k @ '':'' @ stringifyValue v) # stringifyMembers kvs"

text \<open>
  \<^verbatim>\<open>JSON.stringify(options)\<close>; \<open>None\<close> is the result
  \<^verbatim>\<open>undefined\<close>.
\<close>

definition JSON_stringify :: "options \<Rightarrow> string option" where
  "JSON_stringify opts =
     (case opts of
        Undefined \<Rightarrow> None
      | Str s \<Rightarrow> Some (quoteJSONString s)
      | Bool b \<Rightarrow> Some (if b then ''true'' else ''false'')
      | Rec kvs \<Rightarrow> Some (''{'' @ join '','' (stringifyMembers kvs) @ ''}''))"

subsection \<open>Dependency nodes (\<^verbatim>\<open>FNode\<close>)\<close>

text \<open>
  \<^verbatim>\<open>interface FNode { id: string; options?: ...; dependsOn: FNode[] }\<close>.
  In the source a child pushed onto \<^verbatim>\<open>current.dependsOn\<close> is the object that is also
  pushed onto the worklist, so its own \<^verbatim>\<open>dependsOn\<close> grows when it is expanded later; the
  value kept here under its parent is the child as it was created. No function of this file
  reads the \<^verbatim>\<open>dependsOn\<close> of a child: \<^verbatim>\<open>fNodeEquality\<close> and \<^verbatim>\<open>fNodeStableSort\<close> read
  \<^verbatim>\<open>id\<close> and \<^verbatim>\<open>options\<close> only.
\<close>

datatype FNode = FNode (id_of: string) (options: options) (dependsOn: "FNode list")

definition fNodeEquality :: "FNode \<Rightarrow> FNode \<Rightarrow> bool" where
  "fNodeEquality a b =
     (if id_of a \<noteq> id_of b then False
      else if JSON_stringify (options a) \<noteq> JSON_stringify (options b) then False
      else True)"

text \<open>
  \<^verbatim>\<open>localeCompare\<close> depends on the collation of the host and is a parameter \<open>lc\<close>.
  \<^verbatim>\<open>JSON.stringify(a.options).localeCompare(...)\<close> throws a TypeError when
  \<^verbatim>\<open>a.options\<close> is undefined; an undefined argument is compared as the string
  \<^verbatim>\<open>"undefined"\<close>.
\<close>

definition fNodeStableSort :: "(string \<Rightarrow> string \<Rightarrow> int) \<Rightarrow> FNode \<Rightarrow> FNode \<Rightarrow> error + int" where
  "fNodeStableSort lc a b =
     (if id_of a \<noteq> id_of b then Inr (lc (id_of a) (id_of b))
      else if JSON_stringify (options a) \<noteq> JSON_stringify (options b) then
        (case JSON_stringify (options a) of
           None \<Rightarrow> Inl TypeError
         | Some sa \<Rightarrow>
             Inr (lc sa (case JSON_stringify (options b) of
                           None \<Rightarrow> ''undefined''
                         | Some sb \<Rightarrow> sb)))
      else Inr 0)"

subsection \<open>The environment of the hard-dependency path\<close>

text \<open>
  The collaborators that are imported from other files and the built-ins that are not
  modelled are parameters: \<^verbatim>\<open>getRef\<close>, \<^verbatim>\<open>fetchOCIFeatureManifestIfExistsFromUserIdentifier\<close>,
  \<^verbatim>\<open>userFeaturesToArray\<close>, \<^verbatim>\<open>JSON.parse\<close> followed by \<^verbatim>\<open>Object.entries\<close> (which can
  throw), and \<^verbatim>\<open>localeCompare\<close>. What the collaborators write to the log themselves is
  not recorded.
\<close>

record OCIRef =
  registry :: string
  namespace :: string
  resource :: string

record OCIManifest =
  annotations :: "(string \<Rightarrow> string option) option"

record DevContainerConfig =
  userFeatures :: "(string \<times> options) list option"
  overrideFeatureInstallOrder :: "string list option"

record CommonParams =
  getRef :: "string \<Rightarrow> OCIRef option"
  fetchManifest :: "string \<Rightarrow> OCIManifest option"
  userFeaturesToArray :: "DevContainerConfig \<Rightarrow> (string \<times> options) list option"
  parseEntries :: "string \<Rightarrow> error + (string \<times> options) list"
  localeCompare :: "string \<Rightarrow> string \<Rightarrow> int"

text \<open>
  \<^verbatim>\<open>manifest.annotations?.['dev.containers.experimental.dependsOn']\<close>
\<close>

definition dependsOnSerialized :: "OCIManifest \<Rightarrow> string option" where
  "dependsOnSerialized manifest =
     (case annotations manifest of
        None \<Rightarrow> None
      | Some a \<Rightarrow> a ''dev.containers.experimental.dependsOn'')"

text \<open>
  A string or \<^verbatim>\<open>undefined\<close> is falsy when it is undefined or empty.
\<close>

definition falsy :: "string option \<Rightarrow> bool" where
  "falsy s = (s = None \<or> s = Some [])"

definition quoted :: "string \<Rightarrow> string" where
  "quoted s = [CHR 0x27] @ s @ [CHR 0x27]"

subsection \<open>\<^verbatim>\<open>_buildDependencyGraph\<close>\<close>

text \<open>
  The \<^verbatim>\<open>for\<close> loop over \<^verbatim>\<open>Object.entries(dependsOn)\<close>: each dependency is pushed onto
  \<^verbatim>\<open>current.dependsOn\<close> and onto the worklist.
\<close>

fun addDependencies ::
  "CommonParams \<Rightarrow> (string \<times> options) list \<Rightarrow> FNode \<Rightarrow> FNode list \<Rightarrow> error + FNode \<times> FNode list"
where
  "addDependencies p [] current worklist = Inr (current, worklist)"
| "addDependencies p ((i, opts) # entries) current worklist =
     (case getRef p i of
        None \<Rightarrow> Inl (Error (''Invalid reference '' @ quoted i))
      | Some ref \<Rightarrow>
          addDependencies p entries
            (FNode (id_of current) (options current)
               (dependsOn current @ [FNode (resource ref) opts []]))
            (worklist @ [FNode (resource ref) opts []]))"

definition resolving :: "FNode \<Rightarrow> event list" where
  "resolving current =
     [Log (''Resolving dependencies for '' @ quoted (id_of current) @ ''...'') Info,
      FetchManifest (id_of current)]"

text \<open>
  The function as it is written: a \<^verbatim>\<open>while\<close> loop over the shared worklist that, after a
  node with dependencies, calls itself on the same two arrays and then goes on with its own
  loop. The state is the worklist, the accumulator and the events so far; the result is the
  events together with the exception or the two arrays as they are left
  (\<^verbatim>\<open>return acc\<close>). The fetches follow the manifests, so the loop need not end: \<open>None\<close>
  stands for a computation that does not return.
\<close>

partial_function (option) buildDependencyGraph ::
  "CommonParams \<Rightarrow> FNode list \<Rightarrow> FNode list \<Rightarrow> event list
     \<Rightarrow> (event list \<times> (error + FNode list \<times> FNode list)) option"
where
  "buildDependencyGraph p worklist acc tr =
     (case worklist of
        [] \<Rightarrow> Some (tr, Inr ([], acc))
      | current # rest \<Rightarrow>
          if list_ex (\<lambda>f. fNodeEquality f current) acc
          then buildDependencyGraph p rest acc tr
          else
            (case fetchManifest p (id_of current) of
               None \<Rightarrow>
                 Some (tr @ resolving current,
                       Inl (Error (''Manifest for '' @ quoted (id_of current) @ '' not found'')))
             | Some manifest \<Rightarrow>
                 if falsy (dependsOnSerialized manifest)
                 then buildDependencyGraph p rest (acc @ [current]) (tr @ resolving current)
                 else
                   (case parseEntries p (the (dependsOnSerialized manifest)) of
                      Inl e \<Rightarrow> Some (tr @ resolving current, Inl e)
                    | Inr entries \<Rightarrow>
                        (case addDependencies p entries current rest of
                           Inl e \<Rightarrow> Some (tr @ resolving current, Inl e)
                         | Inr (current', worklist') \<Rightarrow>
                             Option.bind
                               (buildDependencyGraph p worklist' (acc @ [current'])
                                  (tr @ resolving current))
                               (\<lambda>r. case r of
                                  (tr', Inl e) \<Rightarrow> Some (tr', Inl e)
                                | (tr', Inr (worklist'', acc'')) \<Rightarrow>
                                    buildDependencyGraph p worklist'' acc'' tr')))))"

text \<open>
  The plain loop of the specification: a queue processed until it is empty, with no
  self-call.
\<close>

partial_function (option) buildDependencyGraph_loop ::
  "CommonParams \<Rightarrow> FNode list \<Rightarrow> FNode list \<Rightarrow> event list
     \<Rightarrow> (event list \<times> (error + FNode list \<times> FNode list)) option"
where
  "buildDependencyGraph_loop p worklist acc tr =
     (case worklist of
        [] \<Rightarrow> Some (tr, Inr ([], acc))
      | current # rest \<Rightarrow>
          if list_ex (\<lambda>f. fNodeEquality f current) acc
          then buildDependencyGraph_loop p rest acc tr
          else
            (case fetchManifest p (id_of current) of
               None \<Rightarrow>
                 Some (tr @ resolving current,
                       Inl (Error (''Manifest for '' @ quoted (id_of current) @ '' not found'')))
             | Some manifest \<Rightarrow>
                 if falsy (dependsOnSerialized manifest)
                 then buildDependencyGraph_loop p rest (acc @ [current]) (tr @ resolving current)
                 else
                   (case parseEntries p (the (dependsOnSerialized manifest)) of
                      Inl e \<Rightarrow> Some (tr @ resolving current, Inl e)
                    | Inr entries \<Rightarrow>
                        (case addDependencies p entries current rest of
                           Inl e \<Rightarrow> Some (tr @ resolving current, Inl e)
                         | Inr (current', worklist') \<Rightarrow>
                             buildDependencyGraph_loop p worklist' (acc @ [current'])
                               (tr @ resolving current)))))"

text \<open>
  \<^verbatim>\<open>buildDependencyGraphFromConfig\<close>: the root nodes, then the graph
  from an empty accumulator.
\<close>

fun rootNodes :: "CommonParams \<Rightarrow> (string \<times> options) list \<Rightarrow> error + FNode list" where
  "rootNodes p [] = Inr []"
| "rootNodes p ((i, opts) # fs) =
     (case getRef p i of
        None \<Rightarrow> Inl (Error (''Invalid reference '' @ quoted i))
      | Some ref \<Rightarrow>
          (case rootNodes p fs of
             Inl e \<Rightarrow> Inl e
           | Inr ns \<Rightarrow> Inr (FNode (resource ref) opts [] # ns)))"

definition buildDependencyGraphFromConfig ::
  "CommonParams \<Rightarrow> DevContainerConfig \<Rightarrow> (event list \<times> (error + FNode list)) option"
where
  "buildDependencyGraphFromConfig p config =
     (case userFeaturesToArray p config of
        None \<Rightarrow> Some ([], Inl (Error ''No features found. Nothing to do.''))
      | Some fs \<Rightarrow>
          (case rootNodes p fs of
             Inl e \<Rightarrow> Some ([], Inl e)
           | Inr roots \<Rightarrow>
               (case buildDependencyGraph p roots [] [] of
                  None \<Rightarrow> None
                | Some (tr, Inl e) \<Rightarrow> Some (tr, Inl e)
                | Some (tr, Inr (worklist, acc)) \<Rightarrow> Some (tr, Inr acc))))"

subsection \<open>\<^verbatim>\<open>computeDependsOnInstallationOrder\<close>\<close>

text \<open>
  The filter of a round: no dependencies, or each one equal to an installed node.
\<close>

definition ready :: "FNode list \<Rightarrow> FNode \<Rightarrow> bool" where
  "ready installationOrder node =
     (dependsOn node = []
      \<or> list_all (\<lambda>dep. list_ex (\<lambda>installed. fNodeEquality installed dep) installationOrder)
           (dependsOn node))"

definition idList :: "FNode list \<Rightarrow> string" where
  "idList ns = join '', '' (map id_of ns)"

definition notInRound :: "FNode list \<Rightarrow> FNode \<Rightarrow> bool" where
  "notInRound round node = (\<not> list_ex (\<lambda>r. fNodeEquality r node) round)"

function installRounds ::
  "CommonParams \<Rightarrow> FNode list \<Rightarrow> FNode list \<Rightarrow> event list \<Rightarrow> event list \<times> (error + FNode list)"
where
  "installRounds p worklist installationOrder tr =
     (if worklist = [] then (tr, Inr installationOrder)
      else if filter (ready installationOrder) worklist = [] then
        (tr @ [Log (''Round: '' @ idList (filter (ready installationOrder) worklist)) Info,
               Log (''Nodes remaining: '' @ idList worklist) Error_level],
         Inl (Error ''Circular dependency detected''))
      else
        (case sort_by (fNodeStableSort (localeCompare p))
                (filter (ready installationOrder) worklist) of
           Inl e \<Rightarrow>
             (tr @ [Log (''Round: '' @ idList (filter (ready installationOrder) worklist)) Info],
              Inl e)
         | Inr round \<Rightarrow>
             installRounds p
               (filter (notInRound (filter (ready installationOrder) worklist)) worklist)
               (installationOrder @ round)
               (tr @ [Log (''Round: '' @ idList (filter (ready installationOrder) worklist)) Info])))"
  by pat_completeness auto
termination
proof (relation "measure (\<lambda>(p, worklist, installationOrder, tr). length worklist)")
  show "wf (measure (\<lambda>(p, worklist, installationOrder, tr). length worklist))"
    by simp
next
  fix p :: CommonParams and worklist installationOrder :: "FNode list"
    and tr :: "event list" and round :: "FNode list"
  assume "filter (ready installationOrder) worklist \<noteq> []"
  then obtain x where x: "x \<in> set worklist" "ready installationOrder x"
    by (auto simp: filter_empty_conv)
  then have "\<not> notInRound (filter (ready installationOrder) worklist) x"
    by (auto simp: notInRound_def list_ex_iff fNodeEquality_def)
  with x(1)
  have "length (filter (notInRound (filter (ready installationOrder) worklist)) worklist)
          < length worklist"
    by (rule length_filter_less)
  then show "((p, filter (notInRound (filter (ready installationOrder) worklist)) worklist,
               installationOrder @ round,
               tr @ [Log (''Round: '' @ idList (filter (ready installationOrder) worklist)) Info]),
              p, worklist, installationOrder, tr)
             \<in> measure (\<lambda>(p, worklist, installationOrder, tr). length worklist)"
    by simp
qed

declare installRounds.simps [simp del]

definition computeDependsOnInstallationOrder ::
  "CommonParams \<Rightarrow> DevContainerConfig \<Rightarrow> (event list \<times> (error + FNode list)) option"
where
  "computeDependsOnInstallationOrder p config =
     (case buildDependencyGraphFromConfig p config of
        None \<Rightarrow> None
      | Some (tr, Inl e) \<Rightarrow> Some (tr, Inl e)
      | Some (tr, Inr worklist) \<Rightarrow>
          Some (installRounds p worklist []
                  (tr @ [Log (''Starting with: '' @ idList worklist) Info])))"

subsection \<open>Feature descriptors of the soft-order path\<close>

text \<open>
  \<^verbatim>\<open>FeatureSet\<close> is declared in \<^verbatim>\<open>containerFeaturesConfiguration\<close>; the records hold the
  fields this file reads (\<^verbatim>\<open>sourceInformation.type\<close> is the field \<open>sourceType\<close>). The only
  element of \<^verbatim>\<open>features\<close> that is read or written is
  \<^verbatim>\<open>features[0]\<close>, the field \<open>features0\<close>; a descriptor with an empty \<^verbatim>\<open>features\<close>
  array, on which the source throws a TypeError, is not a value of the model. A descriptor is
  an object that the caller owns
  and that the code changes in place, so descriptors live in a heap and arrays hold
  references to them; descriptors do not share their inner objects.
\<close>

record Feature =
  legacyIds :: "string list option"
  currentId :: "string option"
  installsAfter :: "string list option"

record SourceInformation =
  sourceType :: string
  userFeatureId :: string
  userFeatureIdWithoutVersion :: "string option"
  featureRef :: "OCIRef option"

record FeatureSet =
  features0 :: Feature
  sourceInformation :: SourceInformation

type_synonym ref = nat

type_synonym heap = "ref \<Rightarrow> FeatureSet"

text \<open>
  \<^verbatim>\<open>interface FeatureNode { feature; before: Set<FeatureNode>; after: Set<FeatureNode> }\<close>.
  The node objects are created by \<^verbatim>\<open>features.map\<close>, one for each element of the input
  array; a node is addressed by the index of that element, and a \<^verbatim>\<open>Set\<close> of nodes is the
  list of its members in insertion order.
\<close>

record FeatureNode =
  feature :: ref
  before :: "nat list"
  after :: "nat list"

type_synonym nodeStore = "nat \<Rightarrow> FeatureNode"

definition Set_add :: "'a \<Rightarrow> 'a list \<Rightarrow> 'a list" where
  "Set_add x xs = (if x \<in> set xs then xs else xs @ [x])"

definition Set_delete :: "'a \<Rightarrow> 'a list \<Rightarrow> 'a list" where
  "Set_delete x xs = removeAll x xs"

text \<open>
  A \<^verbatim>\<open>Map\<close> is the list of its entries in insertion order; \<^verbatim>\<open>set\<close> on a key that is
  present replaces the value and keeps the position.
\<close>

fun Map_set :: "('k \<times> 'v) list \<Rightarrow> 'k \<Rightarrow> 'v \<Rightarrow> ('k \<times> 'v) list" where
  "Map_set [] k v = [(k, v)]"
| "Map_set ((k', v') # m) k v =
     (if k' = k then (k, v) # m else (k', v') # Map_set m k v)"

definition Map_get :: "('k \<times> 'v) list \<Rightarrow> 'k \<Rightarrow> 'v option" where
  "Map_get m k = map_of m k"

text \<open>
  \<^verbatim>\<open>xs.sort(cmp)\<close> for a comparator that does not throw. The comparator of the soft path
  orders the descriptors of graph nodes, whose identifiers differ, by identifier; for such a
  comparator every sort returns the ascending list, which is computed here by insertion.
\<close>

fun insert_cmp :: "('a \<Rightarrow> 'a \<Rightarrow> int) \<Rightarrow> 'a \<Rightarrow> 'a list \<Rightarrow> 'a list" where
  "insert_cmp cmp x [] = [x]"
| "insert_cmp cmp x (y # ys) =
     (if cmp x y \<le> 0 then x # y # ys else y # insert_cmp cmp x ys)"

fun sort_cmp :: "('a \<Rightarrow> 'a \<Rightarrow> int) \<Rightarrow> 'a list \<Rightarrow> 'a list" where
  "sort_cmp cmp [] = []"
| "sort_cmp cmp (x # xs) = insert_cmp cmp x (sort_cmp cmp xs)"

text \<open>
  \<^verbatim>\<open>xs.indexOf(x)\<close> and \<^verbatim>\<open>xs.splice(start, 1)\<close>
  (a negative start counts from the end).
\<close>

fun indexOf :: "'a list \<Rightarrow> 'a \<Rightarrow> int" where
  "indexOf [] x = - 1"
| "indexOf (y # ys) x =
     (if y = x then 0 else (if indexOf ys x < 0 then - 1 else indexOf ys x + 1))"

definition splice1 :: "'a list \<Rightarrow> int \<Rightarrow> 'a list" where
  "splice1 xs start =
     (let n = int (length xs);
          s = (if start < 0 then max (n + start) 0 else min start n)
      in take (nat s) xs @ drop (nat s + 1) xs)"

subsection \<open>\<^verbatim>\<open>computeInstallationOrder\<close>\<close>

definition featureKey :: "heap \<Rightarrow> ref \<Rightarrow> string" where
  "featureKey h r = split_colon_0 (userFeatureId (sourceInformation (h r)))"

definition newNodes :: "ref list \<Rightarrow> nodeStore" where
  "newNodes features = (\<lambda>a. \<lparr>feature = features ! a, before = [], after = []\<rparr>)"

text \<open>
  The \<^verbatim>\<open>reduce\<close> that fills \<^verbatim>\<open>nodesById\<close>, in the
  order of the input array.
\<close>

definition nodesById_of :: "heap \<Rightarrow> ref list \<Rightarrow> (string \<times> nat) list" where
  "nodesById_of h features =
     foldl (\<lambda>m a. Map_set m (featureKey h (feature (newNodes features a))) a) []
       [0..<length features]"

text \<open>
  The body of \<^verbatim>\<open>nodes.map\<close>: the legacy ids and the current id of an OCI feature are
  rewritten in the descriptor itself. A template literal prints an undefined
  \<^verbatim>\<open>currentId\<close> as \<^verbatim>\<open>undefined\<close>.
\<close>

definition prefixed :: "OCIRef \<Rightarrow> string \<Rightarrow> string" where
  "prefixed fr s = registry fr @ ''/'' @ namespace fr @ ''/'' @ s"

definition rewriteLegacyIds :: "heap \<Rightarrow> ref \<Rightarrow> heap" where
  "rewriteLegacyIds h r =
     (if sourceType (sourceInformation (h r)) = ''oci''
         \<and> (case legacyIds (features0 (h r)) of None \<Rightarrow> False | Some ls \<Rightarrow> length ls > 0)
      then
        (case featureRef (sourceInformation (h r)) of
           None \<Rightarrow> h
         | Some fr \<Rightarrow>
             h(r := (h r)\<lparr>features0 := (features0 (h r))
                 \<lparr>legacyIds := Some (map (prefixed fr) (the (legacyIds (features0 (h r))))),
                  currentId := Some (prefixed fr
                     (case currentId (features0 (h r)) of
                        None \<Rightarrow> ''undefined''
                      | Some c \<Rightarrow> c))\<rparr>\<rparr>))
      else h)"

definition rewriteAll :: "heap \<Rightarrow> nodeStore \<Rightarrow> nat list \<Rightarrow> heap" where
  "rewriteAll h g nodes = foldl (\<lambda>h a. rewriteLegacyIds h (feature (g a))) h nodes"

text \<open>
  The node an \<^verbatim>\<open>installsAfter\<close> identifier refers to: the key in \<^verbatim>\<open>nodesById\<close>, else the
  first node with the identifier among its legacy ids, else the first node with that
  current id.
\<close>

definition hasLegacyId :: "heap \<Rightarrow> nodeStore \<Rightarrow> string \<Rightarrow> nat \<Rightarrow> bool" where
  "hasLegacyId h g firstId a =
     (case legacyIds (features0 (h (feature (g a)))) of
        None \<Rightarrow> False
      | Some ls \<Rightarrow> firstId \<in> set ls)"

definition hasCurrentId :: "heap \<Rightarrow> nodeStore \<Rightarrow> string \<Rightarrow> nat \<Rightarrow> bool" where
  "hasCurrentId h g firstId a = (currentId (features0 (h (feature (g a)))) = Some firstId)"

definition resolveFirst ::
  "heap \<Rightarrow> nodeStore \<Rightarrow> (string \<times> nat) list \<Rightarrow> nat list \<Rightarrow> string \<Rightarrow> nat option"
where
  "resolveFirst h g nodesById nodes firstId =
     (case Map_get nodesById firstId of
        Some first \<Rightarrow> Some first
      | None \<Rightarrow>
          (case find (hasLegacyId h g firstId) nodes of
             Some first \<Rightarrow> Some first
           | None \<Rightarrow> find (hasCurrentId h g firstId) nodes))"

definition addEdge :: "nat \<Rightarrow> nat \<Rightarrow> nodeStore \<Rightarrow> nodeStore" where
  "addEdge later first g =
     (let g1 = g(later := (g later)\<lparr>after := Set_add first (after (g later))\<rparr>)
      in g1(first := (g1 first)\<lparr>before := Set_add later (before (g1 first))\<rparr>))"

definition installsAfterOf :: "heap \<Rightarrow> nodeStore \<Rightarrow> nat \<Rightarrow> string list" where
  "installsAfterOf h g later =
     (case installsAfter (features0 (h (feature (g later)))) of None \<Rightarrow> [] | Some l \<Rightarrow> l)"

definition edgesOf ::
  "heap \<Rightarrow> (string \<times> nat) list \<Rightarrow> nat list \<Rightarrow> nodeStore \<Rightarrow> nat \<Rightarrow> nodeStore"
where
  "edgesOf h nodesById nodes g later =
     foldl (\<lambda>g firstId.
              case resolveFirst h g nodesById nodes firstId of
                None \<Rightarrow> g
              | Some first \<Rightarrow> addEdge later first g)
       g (installsAfterOf h g later)"

definition discoverEdges ::
  "heap \<Rightarrow> (string \<times> nat) list \<Rightarrow> nat list \<Rightarrow> nodeStore \<Rightarrow> nodeStore"
where
  "discoverEdges h nodesById nodes g = foldl (edgesOf h nodesById nodes) g nodes"

definition roots_of :: "nodeStore \<Rightarrow> nat list \<Rightarrow> nat list" where
  "roots_of g nodes = filter (\<lambda>a. after (g a) = [] \<and> before (g a) \<noteq> []) nodes"

definition islands_of :: "nodeStore \<Rightarrow> nat list \<Rightarrow> nat list" where
  "islands_of g nodes = filter (\<lambda>a. after (g a) = [] \<and> before (g a) = []) nodes"

text \<open>
  The comparator of both sorts, on descriptors:
  \<^verbatim>\<open>a.id < b.id ? -1 : 1\<close>.
\<close>

definition compareIds :: "heap \<Rightarrow> ref \<Rightarrow> ref \<Rightarrow> int" where
  "compareIds h a b =
     (if userFeatureId (sourceInformation (h a)) < userFeatureId (sourceInformation (h b))
      then - 1 else 1)"

text \<open>
  The state of the \<^verbatim>\<open>while (current.length)\<close> loop: the node objects, \<^verbatim>\<open>current\<close> and
  \<^verbatim>\<open>orderedFeatures\<close>.
\<close>

record peeling =
  pGraph :: nodeStore
  pCurrent :: "nat list"
  pOrdered :: "ref list"

definition peelEdge :: "nat \<Rightarrow> nodeStore \<times> nat list \<Rightarrow> nat \<Rightarrow> nodeStore \<times> nat list" where
  "peelEdge first gn later =
     (let g' = (fst gn)(later := (fst gn later)\<lparr>after := Set_delete first (after (fst gn later))\<rparr>)
      in (g', if after (g' later) = [] then snd gn @ [later] else snd gn))"

definition peelNode :: "nodeStore \<times> nat list \<Rightarrow> nat \<Rightarrow> nodeStore \<times> nat list" where
  "peelNode gn first = foldl (peelEdge first) gn (before (fst gn first))"

definition peelLayer :: "heap \<Rightarrow> peeling \<Rightarrow> peeling" where
  "peelLayer h s =
     (let gn = foldl peelNode (pGraph s, []) (pCurrent s)
      in \<lparr>pGraph = fst gn,
          pCurrent = snd gn,
          pOrdered =
            pOrdered s
              @ sort_cmp (compareIds h) (map (\<lambda>a. feature (fst gn a)) (pCurrent s))\<rparr>)"

text \<open>
  \<^verbatim>\<open>computeInstallationOrder\<close> returns the heap as the call leaves it together with the
  exception or the order. \<open>None\<close> stands for a \<^verbatim>\<open>while\<close> loop that does not end.
\<close>

definition missing_of :: "heap \<Rightarrow> (string \<times> nat) list \<Rightarrow> ref list \<Rightarrow> string list" where
  "missing_of h nodesById ordered =
     filter (\<lambda>k. k \<notin> set (map (featureKey h) ordered)) (map fst nodesById)"

definition computeInstallationOrder :: "heap \<Rightarrow> ref list \<Rightarrow> (heap \<times> (error + ref list)) option" where
  "computeInstallationOrder h features =
     (let nodesById = nodesById_of h features;
          nodes = map snd nodesById;
          h' = rewriteAll h (newNodes features) nodes;
          g = discoverEdges h' nodesById nodes (newNodes features)
      in case while_option (\<lambda>s. pCurrent s \<noteq> []) (peelLayer h')
                \<lparr>pGraph = g, pCurrent = roots_of g nodes, pOrdered = []\<rparr> of
           None \<Rightarrow> None
         | Some s \<Rightarrow>
             (let ordered = pOrdered s
                    @ sort_cmp (compareIds h') (map (\<lambda>a. feature (pGraph s a)) (islands_of g nodes));
                  missing = missing_of h' nodesById ordered
              in Some (h',
                   if missing \<noteq> []
                   then Inl (Error (''Features declare cyclic dependency: '' @ join '', '' missing))
                   else Inr ordered)))"

subsection \<open>\<^verbatim>\<open>computeOverrideInstallationOrder\<close>\<close>

definition matchesId :: "heap \<Rightarrow> string \<Rightarrow> ref \<Rightarrow> bool" where
  "matchesId h featureId r =
     (userFeatureIdWithoutVersion (sourceInformation (h r)) = Some featureId
      \<or> userFeatureId (sourceInformation (h r)) = featureId)"

text \<open>
  The \<^verbatim>\<open>for\<close> loop over the override list. Its state is \<^verbatim>\<open>orderedFeatures\<close> and the
  caller's array \<^verbatim>\<open>features\<close>, from which \<^verbatim>\<open>splice\<close> removes an element.
\<close>

fun overrideLoop ::
  "heap \<Rightarrow> ref list \<Rightarrow> string list \<Rightarrow> ref list \<Rightarrow> ref list \<Rightarrow> ref list \<times> (error + ref list)"
where
  "overrideLoop h automaticOrder [] orderedFeatures features =
     (features, Inr (orderedFeatures @ features))"
| "overrideLoop h automaticOrder (featureId # rest) orderedFeatures features =
     (case find (matchesId h featureId) automaticOrder of
        None \<Rightarrow> (features, Inl (Error (''Feature '' @ featureId @ '' not found'')))
      | Some f \<Rightarrow>
          overrideLoop h automaticOrder rest (orderedFeatures @ [f])
            (splice1 features (indexOf features f)))"

text \<open>
  The result: the heap and the caller's array as the call leaves them, and the outcome. The
  function is exported: called with a configuration that has no override list, it computes the
  automatic order and then throws a TypeError, \<^verbatim>\<open>for ... of\<close> over \<^verbatim>\<open>undefined\<close>.
\<close>

definition computeOverrideInstallationOrder ::
  "DevContainerConfig \<Rightarrow> heap \<Rightarrow> ref list \<Rightarrow> (heap \<times> ref list \<times> (error + ref list)) option"
where
  "computeOverrideInstallationOrder config h features =
     (case computeInstallationOrder h features of
        None \<Rightarrow> None
      | Some (h', Inl e) \<Rightarrow> Some (h', features, Inl e)
      | Some (h', Inr automaticOrder) \<Rightarrow>
          (case overrideFeatureInstallOrder config of
             None \<Rightarrow> Some (h', features, Inl TypeError)
           | Some featureIds \<Rightarrow>
               Some (h', overrideLoop h' automaticOrder featureIds [] features)))"

definition computeFeatureInstallationOrder ::
  "DevContainerConfig \<Rightarrow> heap \<Rightarrow> ref list \<Rightarrow> (heap \<times> ref list \<times> (error + ref list)) option"
where
  "computeFeatureInstallationOrder config h features =
     (if overrideFeatureInstallOrder config \<noteq> None
      then computeOverrideInstallationOrder config h features
      else (case computeInstallationOrder h features of
              None \<Rightarrow> None
            | Some (h', res) \<Rightarrow> Some (h', features, res)))"

subsection \<open>Example inputs\<close>

text \<open>
  A local feature with an identifier and its \<^verbatim>\<open>installsAfter\<close> list.
\<close>

definition localFeature :: "string \<Rightarrow> string list \<Rightarrow> FeatureSet" where
  "localFeature i aft =
     \<lparr>features0 = \<lparr>legacyIds = None, currentId = None, installsAfter = Some aft\<rparr>,
      sourceInformation =
        \<lparr>sourceType = ''file-path'', userFeatureId = i,
         userFeatureIdWithoutVersion = Some (split_colon_0 i), featureRef = None\<rparr>\<rparr>"

text \<open>
  An OCI feature \<^verbatim>\<open>ghcr.io/owner/<name>:1\<close> with legacy ids.
\<close>

definition ociFeature :: "string \<Rightarrow> string list \<Rightarrow> FeatureSet" where
  "ociFeature name legacy =
     \<lparr>features0 = \<lparr>legacyIds = Some legacy, currentId = Some name, installsAfter = None\<rparr>,
      sourceInformation =
        \<lparr>sourceType = ''oci'', userFeatureId = ''ghcr.io/owner/'' @ name @ '':1'',
         userFeatureIdWithoutVersion = Some (''ghcr.io/owner/'' @ name),
         featureRef = Some \<lparr>registry = ''ghcr.io'', namespace = ''owner'', resource = name\<rparr>\<rparr>\<rparr>"

text \<open>Three features without edges, given in the order b, a, c.\<close>

definition heapBAC :: heap where
  "heapBAC = (\<lambda>_. localFeature ''unused'' [])
     (0 := localFeature ''b'' [], 1 := localFeature ''a'' [], 2 := localFeature ''c'' [])"

definition overrideConfig :: "string list \<Rightarrow> DevContainerConfig" where
  "overrideConfig l = \<lparr>userFeatures = None, overrideFeatureInstallOrder = Some l\<rparr>"

text \<open>
  An OCI feature \<^verbatim>\<open>new\<close> with the legacy id \<^verbatim>\<open>old\<close>, and a feature \<^verbatim>\<open>app\<close> that installs
  after \<^verbatim>\<open>ghcr.io/owner/old\<close>.
\<close>

definition heapLegacy :: heap where
  "heapLegacy = (\<lambda>_. localFeature ''unused'' [])
     (0 := ociFeature ''new'' [''old''], 1 := localFeature ''app'' [''ghcr.io/owner/old''])"

text \<open>Two descriptors with the key \<^verbatim>\<open>a\<close>.\<close>

definition heapSameKey :: heap where
  "heapSameKey = (\<lambda>_. localFeature ''unused'' [])
     (0 := localFeature ''a:1'' [], 1 := localFeature ''a:2'' [])"

text \<open>
  A feature \<^verbatim>\<open>b\<close> that installs after \<^verbatim>\<open>a\<close>.
\<close>

definition heapAB :: heap where
  "heapAB = (\<lambda>_. localFeature ''unused'' [])
     (0 := localFeature ''a'' [], 1 := localFeature ''b'' [''a''])"

definition compareCodeUnits :: "string \<Rightarrow> string \<Rightarrow> int" where
  "compareCodeUnits a b = (if a < b then - 1 else if a = b then 0 else 1)"

definition annotated :: "string \<Rightarrow> OCIManifest" where
  "annotated s =
     \<lparr>annotations =
        Some (\<lambda>k. if k = ''dev.containers.experimental.dependsOn'' then Some s else None)\<rparr>"

text \<open>
  A registry in which \<^verbatim>\<open>featX\<close> depends on \<^verbatim>\<open>featZ\<close> and \<^verbatim>\<open>featZ\<close> on \<^verbatim>\<open>featX\<close>;
  \<open>parseEntries\<close> gives the entries of the two annotations.
\<close>

definition cyclicParams :: CommonParams where
  "cyclicParams =
     \<lparr>getRef = (\<lambda>i. Some \<lparr>registry = ''ghcr.io'', namespace = ''owner'', resource = i\<rparr>),
      fetchManifest =
        (\<lambda>i. if i = ''featX'' then Some (annotated ''needs featZ'')
              else if i = ''featZ'' then Some (annotated ''needs featX'')
              else None),
      userFeaturesToArray = userFeatures,
      parseEntries =
        (\<lambda>s. if s = ''needs featZ'' then Inr [(''featZ'', Rec [])]
              else if s = ''needs featX'' then Inr [(''featX'', Rec [])]
              else Inl SyntaxError),
      localeCompare = compareCodeUnits\<rparr>"

definition cyclicConfig :: DevContainerConfig where
  "cyclicConfig =
     \<lparr>userFeatures = Some [(''featX'', Rec [])], overrideFeatureInstallOrder = None\<rparr>"

text \<open>
  A registry in which \<^verbatim>\<open>a\<close> depends on \<^verbatim>\<open>b\<close>, and
  \<^verbatim>\<open>b\<close> on \<^verbatim>\<open>c\<close>.
\<close>

definition chainParams :: CommonParams where
  "chainParams =
     \<lparr>getRef = (\<lambda>i. Some \<lparr>registry = ''ghcr.io'', namespace = ''owner'', resource = i\<rparr>),
      fetchManifest =
        (\<lambda>i. if i = ''a'' then Some (annotated ''needs b'')
              else if i = ''b'' then Some (annotated ''needs c'')
              else if i = ''c'' then Some \<lparr>annotations = None\<rparr>
              else None),
      userFeaturesToArray = userFeatures,
      parseEntries =
        (\<lambda>s. if s = ''needs b'' then Inr [(''b'', Rec [])]
              else if s = ''needs c'' then Inr [(''c'', Bool True)]
              else Inl SyntaxError),
      localeCompare = compareCodeUnits\<rparr>"


text \<open>Two features that install after each other.\<close>

definition heapCycle :: heap where
  "heapCycle = (\<lambda>_. localFeature ''unused'' [])
     (0 := localFeature ''a'' [''b''], 1 := localFeature ''b'' [''a''])"

text \<open>
  The node list that \<^verbatim>\<open>_buildDependencyGraph\<close> returns in the cyclic
  registry.
\<close>

definition cyclicGraph :: "FNode list" where
  "cyclicGraph =
     [FNode ''featX'' (Rec []) [FNode ''featZ'' (Rec []) []],
      FNode ''featZ'' (Rec []) [FNode ''featX'' (Rec []) []]]"



text \<open>
  An OCI feature \<^verbatim>\<open>ghcr.io/owner/<name>:<version>\<close> with legacy ids.
\<close>

definition ociFeatureVersion :: "string \<Rightarrow> string \<Rightarrow> string list \<Rightarrow> FeatureSet" where
  "ociFeatureVersion name version legacy =
     \<lparr>features0 = \<lparr>legacyIds = Some legacy, currentId = Some name, installsAfter = None\<rparr>,
      sourceInformation =
        \<lparr>sourceType = ''oci'', userFeatureId = ''ghcr.io/owner/'' @ name @ '':'' @ version,
         userFeatureIdWithoutVersion = Some (''ghcr.io/owner/'' @ name),
         featureRef = Some \<lparr>registry = ''ghcr.io'', namespace = ''owner'', resource = name\<rparr>\<rparr>\<rparr>"

text \<open>
  Two versions of the OCI feature \<^verbatim>\<open>new\<close>, both with the legacy id \<^verbatim>\<open>old\<close>.
\<close>

definition heapShadowed :: heap where
  "heapShadowed = (\<lambda>_. localFeature ''unused'' [])
     (0 := ociFeatureVersion ''new'' ''1'' [''old''], 1 := ociFeatureVersion ''new'' ''2'' [''old''])"

subsection \<open>Notions used in the properties\<close>

text \<open>
  The pairs (first, later) that one pass of the \<^verbatim>\<open>while\<close> loop visits,
  in order.
\<close>

definition layerEdges :: "nodeStore \<Rightarrow> nat list \<Rightarrow> (nat \<times> nat) list" where
  "layerEdges g cur = concat (map (\<lambda>x. map (Pair x) (before (g x))) cur)"

text \<open>
  The two nested \<^verbatim>\<open>for\<close> loops as one loop over these pairs.
\<close>

definition peelEdges :: "nodeStore \<times> nat list \<Rightarrow> (nat \<times> nat) list \<Rightarrow> nodeStore \<times> nat list" where
  "peelEdges gn ps = foldl (\<lambda>gn xy. peelEdge (fst xy) gn (snd xy)) gn ps"

text \<open>
  \<^verbatim>\<open>before\<close> and \<^verbatim>\<open>after\<close> as inverse views: x is
  in \<^verbatim>\<open>y.before\<close> iff y is in \<^verbatim>\<open>x.after\<close>.
\<close>

definition inverseViews :: "nodeStore \<Rightarrow> bool" where
  "inverseViews g = (\<forall>x y. (x \<in> set (before (g y))) = (y \<in> set (after (g x))))"

text \<open>
  A graph over the nodes: inverse views, sets without repetition, edges between nodes only.
\<close>

definition wellFormed :: "nat list \<Rightarrow> nodeStore \<Rightarrow> bool" where
  "wellFormed nodes g =
     (inverseViews g
      \<and> (\<forall>x. distinct (before (g x)) \<and> distinct (after (g x)))
      \<and> (\<forall>x y. y \<in> set (after (g x)) \<longrightarrow> x \<in> set nodes \<and> y \<in> set nodes))"

text \<open>
  Every node of the list has all the nodes of its \<^verbatim>\<open>after\<close> set earlier
  in the list.
\<close>

definition topological :: "nodeStore \<Rightarrow> nat list \<Rightarrow> bool" where
  "topological g em = (\<forall>i < length em. \<forall>x \<in> set (after (g (em ! i))). \<exists>j < i. em ! j = x)"

text \<open>
  A node with neither \<^verbatim>\<open>after\<close> nor \<^verbatim>\<open>before\<close>
  edges.
\<close>

definition island :: "nodeStore \<Rightarrow> nat \<Rightarrow> bool" where
  "island g a = (after (g a) = [] \<and> before (g a) = [])"

text \<open>
  The invariant of the \<^verbatim>\<open>while\<close> loop; \<open>em\<close> lists the nodes
  whose features have been pushed onto \<^verbatim>\<open>orderedFeatures\<close>,
  \<open>g\<close> is the graph when the loop starts.
\<close>

definition peelInv :: "nat list \<Rightarrow> nodeStore \<Rightarrow> peeling \<Rightarrow> nat list \<Rightarrow> bool" where
  "peelInv nodes g s em =
     (pOrdered s = map (\<lambda>a. feature (g a)) em
      \<and> distinct (em @ pCurrent s)
      \<and> set (em @ pCurrent s) \<subseteq> set nodes
      \<and> (\<forall>y. after (pGraph s y) = filter (\<lambda>x. x \<notin> set em) (after (g y)))
      \<and> (\<forall>z. before (pGraph s z) = before (g z) \<and> feature (pGraph s z) = feature (g z))
      \<and> (\<forall>y \<in> set (em @ pCurrent s). after (pGraph s y) = [] \<and> \<not> island g y)
      \<and> (\<forall>y \<in> set nodes. after (pGraph s y) = [] \<longrightarrow> y \<in> set (em @ pCurrent s) \<or> island g y)
      \<and> topological g em)"

text \<open>The comparator of the sorts, on nodes.\<close>

definition nodeOrder :: "heap \<Rightarrow> nodeStore \<Rightarrow> nat \<Rightarrow> nat \<Rightarrow> int" where
  "nodeOrder h g a b = compareIds h (feature (g a)) (feature (g b))"

text \<open>
  The node \<open>later\<close> has an \<^verbatim>\<open>installsAfter\<close> identifier that
  the lookup of the edge loop resolves to the node \<open>first\<close>.
\<close>

definition declaresAfter :: "heap \<Rightarrow> nodeStore \<Rightarrow> (string \<times> nat) list \<Rightarrow> nat \<Rightarrow> nat \<Rightarrow> bool" where
  "declaresAfter h g nodesById later first =
     list_ex (\<lambda>firstId. resolveFirst h g nodesById (map snd nodesById) firstId = Some first)
       (installsAfterOf h g later)"

text \<open>Two node stores with the same descriptors.\<close>

definition sameFeatures :: "nodeStore \<Rightarrow> nodeStore \<Rightarrow> bool" where
  "sameFeatures g g' = (\<forall>a. feature (g a) = feature (g' a))"

text \<open>The key of the descriptor at a position of the input array.\<close>

definition keyAt :: "heap \<Rightarrow> ref list \<Rightarrow> nat \<Rightarrow> string" where
  "keyAt h features a = featureKey h (features ! a)"

text \<open>
  \<^verbatim>\<open>nodesById\<close> after the first \<open>n\<close> elements of the input
  array.
\<close>

definition keyed :: "heap \<Rightarrow> ref list \<Rightarrow> nat \<Rightarrow> (string \<times> nat) list" where
  "keyed h features n = foldl (\<lambda>m a. Map_set m (keyAt h features a) a) [] [0..<n]"

text \<open>The nodes of the output: the peeled layers, then the sorted islands.\<close>

definition emitted :: "heap \<Rightarrow> nodeStore \<Rightarrow> nat list \<Rightarrow> nat list \<Rightarrow> nat list" where
  "emitted h g nodes em = em @ sort_cmp (nodeOrder h g) (islands_of g nodes)"



text \<open>
  The positions of the input array whose key does not occur again at a later position.
\<close>

definition keptPositions :: "heap \<Rightarrow> ref list \<Rightarrow> nat list" where
  "keptPositions h features =
     filter (\<lambda>a. list_all (\<lambda>b. keyAt h features b \<noteq> keyAt h features a)
                    [Suc a..<length features])
       [0..<length features]"

text \<open>
  The heap after the \<^verbatim>\<open>nodes.map\<close> pass: legacy ids and current ids
  registry-qualified.
\<close>

definition normalized :: "heap \<Rightarrow> ref list \<Rightarrow> heap" where
  "normalized h features =
     rewriteAll h (newNodes features) (map snd (nodesById_of h features))"

text \<open>
  The state in which \<^verbatim>\<open>computeInstallationOrder\<close> enters its
  \<^verbatim>\<open>while\<close> loop.
\<close>

definition peelStart :: "heap \<Rightarrow> ref list \<Rightarrow> peeling" where
  "peelStart h features =
     (let nodesById = nodesById_of h features;
          nodes = map snd nodesById;
          h' = rewriteAll h (newNodes features) nodes;
          g = discoverEdges h' nodesById nodes (newNodes features)
      in \<lparr>pGraph = g, pCurrent = roots_of g nodes, pOrdered = []\<rparr>)"

text \<open>The state in which it leaves the loop.\<close>

definition peelEnd :: "heap \<Rightarrow> ref list \<Rightarrow> peeling" where
  "peelEnd h features =
     the (while_option (\<lambda>s. pCurrent s \<noteq> []) (peelLayer (normalized h features))
            (peelStart h features))"

text \<open>
  The nodes whose \<^verbatim>\<open>after\<close> set is not empty when the loop ends.
\<close>

definition unresolved :: "heap \<Rightarrow> ref list \<Rightarrow> nat list" where
  "unresolved h features =
     filter (\<lambda>a. after (pGraph (peelEnd h features) a) \<noteq> []) (map snd (nodesById_of h features))"

text \<open>The inverse-view property, checked on a list of nodes.\<close>

definition inverseOn :: "nat list \<Rightarrow> nodeStore \<Rightarrow> bool" where
  "inverseOn nodes g =
     list_all (\<lambda>x. list_all (\<lambda>y. (x \<in> set (before (g y))) = (y \<in> set (after (g x)))) nodes) nodes"

text \<open>
  The condition under which \<^verbatim>\<open>nodes.map\<close> rewrites a descriptor.
\<close>

definition rewritable :: "heap \<Rightarrow> ref \<Rightarrow> bool" where
  "rewritable h r =
     (sourceType (sourceInformation (h r)) = ''oci''
      \<and> (case legacyIds (features0 (h r)) of None \<Rightarrow> False | Some ls \<Rightarrow> ls \<noteq> [])
      \<and> featureRef (sourceInformation (h r)) \<noteq> None)"

text \<open>
  The descriptors of the graph nodes: those at the kept positions of the input array.
\<close>

definition keptDescriptors :: "heap \<Rightarrow> ref list \<Rightarrow> ref list" where
  "keptDescriptors h features = map (\<lambda>a. features ! a) (keptPositions h features)"

text \<open>
  A descriptor with \<^verbatim>\<open>legacyIds\<close> and \<^verbatim>\<open>currentId\<close> of \<^verbatim>\<open>features[0]\<close>
  registry-qualified: each legacy id and the current id prefixed with
  \<^verbatim>\<open><registry>/<namespace>/\<close> of the \<^verbatim>\<open>featureRef\<close>, an undefined current id printed as
  \<^verbatim>\<open>undefined\<close>; every other field as it is.
\<close>

definition registryQualified :: "FeatureSet \<Rightarrow> FeatureSet" where
  "registryQualified d =
     (case (featureRef (sourceInformation d), legacyIds (features0 d)) of
        (Some fr, Some ls) \<Rightarrow>
          d\<lparr>features0 := (features0 d)
              \<lparr>legacyIds := Some (map (prefixed fr) ls),
               currentId := Some (prefixed fr
                  (case currentId (features0 d) of None \<Rightarrow> ''undefined'' | Some c \<Rightarrow> c))\<rparr>\<rparr>
      | _ \<Rightarrow> d)"





text \<open>
  What \<^verbatim>\<open>fNodeEquality\<close> compares: the identifier and the text of the
  options.
\<close>

definition nodeKey :: "FNode \<Rightarrow> string \<times> string option" where
  "nodeKey n = (id_of n, JSON_stringify (options n))"

section \<open>Properties\<close>


text \<open>
  C5. Structural equality is claimed to be independent of the order of the option keys.
  \<^verbatim>\<open>fNodeEquality\<close> compares the \<^verbatim>\<open>JSON.stringify\<close> texts, which list the keys in
  enumeration order: the nodes with options \<^verbatim>\<open>{a: "1", b: "2"}\<close> and
  \<^verbatim>\<open>{b: "2", a: "1"}\<close> and the same identifier are not equal for the code.
\<close>

theorem fNodeEquality_key_order:
  "fNodeEquality
     (FNode ''f'' (Rec [(''a'', Some (OString ''1'')), (''b'', Some (OString ''2''))]) [])
     (FNode ''f'' (Rec [(''b'', Some (OString ''2'')), (''a'', Some (OString ''1''))]) [])
   = False"
  by (simp add: fNodeEquality_def JSON_stringify_def quoteJSONString_def quoteChar_def
      stringifyValue_def)


subsection \<open>The self-call of \<^verbatim>\<open>_buildDependencyGraph\<close>\<close>

text \<open>
  A call that returns leaves the shared worklist empty, so the loop that made the self-call
  has nothing left to do when the self-call returns.
\<close>

lemma buildDependencyGraph_empties:
  assumes "buildDependencyGraph p wl acc tr = Some r" and "r = (tr', Inr (wl', acc'))"
  shows "wl' = []"
  using assms
proof (induct p wl acc tr r arbitrary: tr' wl' acc' rule: buildDependencyGraph.raw_induct [rotated 1, consumes 1])
  case (1 f p wl acc tr r)
  from 1(2,3) show ?case
    by (auto split: list.splits if_splits option.splits sum.splits prod.splits
          Option.bind_splits dest: 1(1))
qed

lemma buildDependencyGraph_Nil: "buildDependencyGraph p [] acc tr = Some (tr, Inr ([], acc))"
  by (subst buildDependencyGraph.simps) simp

lemma buildDependencyGraph_loop_empties:
  assumes "buildDependencyGraph_loop p wl acc tr = Some r" and "r = (tr', Inr (wl', acc'))"
  shows "wl' = []"
  using assms
proof (induct p wl acc tr r arbitrary: tr' wl' acc' rule: buildDependencyGraph_loop.raw_induct [rotated 1, consumes 1])
  case (1 f p wl acc tr r)
  from 1(2,3) show ?case
    by (auto split: list.splits if_splits option.splits sum.splits prod.splits
          Option.bind_splits dest: 1(1))
qed

lemma buildDependencyGraph_loop_Nil: "buildDependencyGraph_loop p [] acc tr = Some (tr, Inr ([], acc))"
  by (subst buildDependencyGraph_loop.simps) simp

lemma buildDependencyGraph_le_loop:
  assumes "buildDependencyGraph p wl acc tr = Some r"
  shows "buildDependencyGraph_loop p wl acc tr = Some r"
  using assms
proof (induct p wl acc tr r rule: buildDependencyGraph.raw_induct [rotated 1, consumes 1])
  case (1 f p wl acc tr r)
  note IH = 1(1) and step = 1(2)
  show ?case
  proof (cases wl)
    case Nil
    with step show ?thesis by (simp add: buildDependencyGraph_loop_Nil)
  next
    case (Cons cur rest)
    show ?thesis
    proof (cases "list_ex (\<lambda>f. fNodeEquality f cur) acc")
      case True
      with step Cons have "f p rest acc tr = Some r" by simp
      then have *: "buildDependencyGraph_loop p rest acc tr = Some r" by (rule IH)
      show ?thesis by (subst buildDependencyGraph_loop.simps) (simp add: Cons True *)
    next
      case nodup: False
      show ?thesis
      proof (cases "fetchManifest p (id_of cur)")
        case None
        show ?thesis
          by (subst buildDependencyGraph_loop.simps) (use step Cons nodup None in simp)
      next
        case (Some manifest)
        show ?thesis
        proof (cases "falsy (dependsOnSerialized manifest)")
          case True
          with step Cons nodup Some
          have "f p rest (acc @ [cur]) (tr @ resolving cur) = Some r" by simp
          then have *: "buildDependencyGraph_loop p rest (acc @ [cur]) (tr @ resolving cur) = Some r"
            by (rule IH)
          show ?thesis
            by (subst buildDependencyGraph_loop.simps) (simp add: Cons nodup Some True *)
        next
          case truthy: False
          show ?thesis
          proof (cases "parseEntries p (the (dependsOnSerialized manifest))")
            case (Inl e)
            show ?thesis
              by (subst buildDependencyGraph_loop.simps) (use step Cons nodup Some truthy Inl in simp)
          next
            case (Inr entries)
            show ?thesis
            proof (cases "addDependencies p entries cur rest")
              case (Inl e)
              show ?thesis
                by (subst buildDependencyGraph_loop.simps) (use step Cons nodup Some truthy Inr Inl in simp)
            next
              case deps: (Inr cw)
              obtain cur' worklist' where cw: "cw = (cur', worklist')" by (cases cw)
              from step Cons nodup Some truthy Inr deps cw
              obtain r1 where r1: "f p worklist' (acc @ [cur']) (tr @ resolving cur) = Some r1"
                and k: "(case r1 of (tr', Inl e) \<Rightarrow> Some (tr', Inl e)
                         | (tr', Inr (worklist'', acc'')) \<Rightarrow> f p worklist'' acc'' tr') = Some r"
                by (auto split: Option.bind_splits)
              from r1
              have l1: "buildDependencyGraph_loop p worklist' (acc @ [cur'])
                          (tr @ resolving cur) = Some r1"
                by (rule IH)
              have "r1 = r"
              proof (cases r1)
                case (Pair tr' res)
                show ?thesis
                proof (cases res)
                  case (Inl e)
                  with k Pair show ?thesis by simp
                next
                  case (Inr wa)
                  obtain w a where wa: "wa = (w, a)" by (cases wa)
                  from l1 Pair Inr wa have "w = []" by (auto dest: buildDependencyGraph_loop_empties)
                  moreover from k Pair Inr wa have "f p w a tr' = Some r" by simp
                  then have "buildDependencyGraph_loop p w a tr' = Some r" by (rule IH)
                  ultimately show ?thesis using Pair Inr wa by (simp add: buildDependencyGraph_loop_Nil)
                qed
              qed
              with l1 have *: "buildDependencyGraph_loop p worklist' (acc @ [cur'])
                          (tr @ resolving cur) = Some r"
                by simp
              show ?thesis
                by (subst buildDependencyGraph_loop.simps)
                   (simp add: Cons nodup Some truthy Inr deps cw *)
            qed
          qed
        qed
      qed
    qed
  qed
qed

lemma buildDependencyGraph_loop_le:
  assumes "buildDependencyGraph_loop p wl acc tr = Some r"
  shows "buildDependencyGraph p wl acc tr = Some r"
  using assms
proof (induct p wl acc tr r rule: buildDependencyGraph_loop.raw_induct [rotated 1, consumes 1])
  case (1 f p wl acc tr r)
  note IH = 1(1) and step = 1(2)
  show ?case
  proof (cases wl)
    case Nil
    with step show ?thesis by (simp add: buildDependencyGraph_Nil)
  next
    case (Cons cur rest)
    show ?thesis
    proof (cases "list_ex (\<lambda>f. fNodeEquality f cur) acc")
      case True
      with step Cons have "f p rest acc tr = Some r" by simp
      then have *: "buildDependencyGraph p rest acc tr = Some r" by (rule IH)
      show ?thesis by (subst buildDependencyGraph.simps) (simp add: Cons True *)
    next
      case nodup: False
      show ?thesis
      proof (cases "fetchManifest p (id_of cur)")
        case None
        show ?thesis
          by (subst buildDependencyGraph.simps) (use step Cons nodup None in simp)
      next
        case (Some manifest)
        show ?thesis
        proof (cases "falsy (dependsOnSerialized manifest)")
          case True
          with step Cons nodup Some
          have "f p rest (acc @ [cur]) (tr @ resolving cur) = Some r" by simp
          then have *: "buildDependencyGraph p rest (acc @ [cur]) (tr @ resolving cur) = Some r"
            by (rule IH)
          show ?thesis
            by (subst buildDependencyGraph.simps) (simp add: Cons nodup Some True *)
        next
          case truthy: False
          show ?thesis
          proof (cases "parseEntries p (the (dependsOnSerialized manifest))")
            case (Inl e)
            show ?thesis
              by (subst buildDependencyGraph.simps) (use step Cons nodup Some truthy Inl in simp)
          next
            case (Inr entries)
            show ?thesis
            proof (cases "addDependencies p entries cur rest")
              case (Inl e)
              show ?thesis
                by (subst buildDependencyGraph.simps) (use step Cons nodup Some truthy Inr Inl in simp)
            next
              case deps: (Inr cw)
              obtain cur' worklist' where cw: "cw = (cur', worklist')" by (cases cw)
              from step Cons nodup Some truthy Inr deps cw
              have "f p worklist' (acc @ [cur']) (tr @ resolving cur) = Some r"
                by simp
              then have r1: "buildDependencyGraph p worklist' (acc @ [cur'])
                               (tr @ resolving cur) = Some r"
                by (rule IH)
              have k: "(case r of (tr', Inl e) \<Rightarrow> Some (tr', Inl e)
                         | (tr', Inr (worklist'', acc'')) \<Rightarrow>
                             buildDependencyGraph p worklist'' acc'' tr') = Some r"
              proof (cases r)
                case (Pair tr' res)
                show ?thesis
                proof (cases res)
                  case (Inl e)
                  with Pair show ?thesis by simp
                next
                  case (Inr wa)
                  obtain w a where wa: "wa = (w, a)" by (cases wa)
                  from r1 Pair Inr wa have "w = []" by (auto dest: buildDependencyGraph_empties)
                  with Pair Inr wa show ?thesis by (simp add: buildDependencyGraph_Nil)
                qed
              qed
              show ?thesis
                by (subst buildDependencyGraph.simps)
                   (simp add: Cons nodup Some truthy Inr deps cw r1 k)
            qed
          qed
        qed
      qed
    qed
  qed
qed

text \<open>
  C10. \<^verbatim>\<open>_buildDependencyGraph\<close> with its self-call and the plain loop over the queue
  agree on every worklist, accumulator and event history: both do not return, or both
  return the same events (log lines and fetches, in sequence) with the same exception or the
  same accumulated node list.
\<close>

theorem buildDependencyGraph_eq_loop: "buildDependencyGraph p wl acc tr = buildDependencyGraph_loop p wl acc tr"
proof (cases "buildDependencyGraph p wl acc tr")
  case None
  show ?thesis
  proof (cases "buildDependencyGraph_loop p wl acc tr")
    case l: None
    with None show ?thesis by simp
  next
    case (Some r)
    then have "buildDependencyGraph p wl acc tr = Some r" by (rule buildDependencyGraph_loop_le)
    with None show ?thesis by simp
  qed
next
  case (Some r)
  then show ?thesis using buildDependencyGraph_le_loop by simp
qed


subsection \<open>The override order on concrete inputs\<close>

text \<open>
  C3. For the features b, a, c (in this input order, no edges) the automatic order is
  a, b, c. With the override list \<^verbatim>\<open>[c]\<close> the claim gives c, a, b; the code returns
  c, b, a: after the overridden features it appends the caller's array, that is the rest in
  input order and not in the automatic order.
\<close>

theorem override_rest_in_input_order:
  "map_option snd (computeInstallationOrder heapBAC [0, 1, 2]) = Some (Inr [1, 0, 2])
   \<and> map_option (snd \<circ> snd)
        (computeOverrideInstallationOrder (overrideConfig [''c'']) heapBAC [0, 1, 2])
      = Some (Inr [2, 0, 1])"
  by code_simp

text \<open>
  C2. With the override list \<^verbatim>\<open>[c, c]\<close> the output of
  \<^verbatim>\<open>computeOverrideInstallationOrder\<close> holds c twice and loses a: the second
  \<^verbatim>\<open>features.indexOf(feature)\<close> is \<^verbatim>\<open>-1\<close>, and \<^verbatim>\<open>splice(-1, 1)\<close> removes the last element
  of the array.
\<close>

theorem override_repeated_identifier:
  "map_option (snd \<circ> snd)
     (computeOverrideInstallationOrder (overrideConfig [''c'', ''c'']) heapBAC [0, 1, 2])
   = Some (Inr [2, 2, 0])"
  by code_simp

text \<open>
  C4. The first call on the descriptors of \<open>heapLegacy\<close> orders \<^verbatim>\<open>new\<close> before \<^verbatim>\<open>app\<close>
  (the legacy id \<^verbatim>\<open>old\<close>, prefixed to \<^verbatim>\<open>ghcr.io/owner/old\<close>, is the target of the edge).
  The second call on the same descriptors prefixes the legacy id again, the edge is not
  found any more, and \<^verbatim>\<open>app\<close> comes first.
\<close>

theorem second_call_different_order:
  "map_option snd (computeInstallationOrder heapLegacy [0, 1]) = Some (Inr [0, 1])
   \<and> map_option snd
        (computeInstallationOrder (fst (the (computeInstallationOrder heapLegacy [0, 1]))) [0, 1])
      = Some (Inr [1, 0])"
  by code_simp


subsection \<open>The soft-order path: graph, layers and order\<close>

lemma set_insert_cmp: "set (insert_cmp cmp x xs) = insert x (set xs)"
  by (induction xs) auto

lemma set_sort_cmp: "set (sort_cmp cmp xs) = set xs"
  by (induction xs) (auto simp: set_insert_cmp)

lemma length_insert_cmp: "length (insert_cmp cmp x xs) = Suc (length xs)"
  by (induction xs) auto

lemma length_sort_cmp: "length (sort_cmp cmp xs) = length xs"
  by (induction xs) (auto simp: length_insert_cmp)

lemma distinct_insert_cmp: "distinct (insert_cmp cmp x xs) = (x \<notin> set xs \<and> distinct xs)"
  by (induction xs) (auto simp: set_insert_cmp)

lemma distinct_sort_cmp: "distinct (sort_cmp cmp xs) = distinct xs"
  by (induction xs) (auto simp: distinct_insert_cmp set_sort_cmp)

lemma insert_cmp_map: "insert_cmp cmp (f x) (map f xs) = map f (insert_cmp (\<lambda>a b. cmp (f a) (f b)) x xs)"
  by (induction xs) auto

lemma sort_cmp_map: "sort_cmp cmp (map f xs) = map f (sort_cmp (\<lambda>a b. cmp (f a) (f b)) xs)"
  by (induction xs) (auto simp: insert_cmp_map)

lemma peelEdges_Nil [simp]: "peelEdges gn [] = gn"
  by (simp add: peelEdges_def)

lemma peelEdges_Cons [simp]: "peelEdges gn (xy # ps) = peelEdges (peelEdge (fst xy) gn (snd xy)) ps"
  by (simp add: peelEdges_def)

lemma peelEdges_append [simp]: "peelEdges gn (ps @ qs) = peelEdges (peelEdges gn ps) qs"
  by (simp add: peelEdges_def)

lemma before_peelEdge [simp]: "before (fst (peelEdge x gn y) z) = before (fst gn z)"
  by (simp add: peelEdge_def Let_def)

lemma feature_peelEdge [simp]: "feature (fst (peelEdge x gn y) z) = feature (fst gn z)"
  by (simp add: peelEdge_def Let_def)

lemma after_peelEdge:
  "after (fst (peelEdge x gn y) z) = (if z = y then removeAll x (after (fst gn z)) else after (fst gn z))"
  by (simp add: peelEdge_def Let_def Set_delete_def)

lemma before_peelEdges [simp]: "before (fst (peelEdges gn ps) z) = before (fst gn z)"
  by (induction ps arbitrary: gn) auto

lemma feature_peelEdges [simp]: "feature (fst (peelEdges gn ps) z) = feature (fst gn z)"
  by (induction ps arbitrary: gn) auto

lemma after_peelEdges:
  "after (fst (peelEdges gn ps) y) = filter (\<lambda>x. (x, y) \<notin> set ps) (after (fst gn y))"
proof (induction ps arbitrary: gn)
  case Nil
  show ?case by simp
next
  case (Cons xy ps)
  show ?case
    by (cases xy) (auto simp: Cons after_peelEdge removeAll_filter_not_eq intro!: filter_cong)
qed

lemma peelNode_eq: "peelNode gn x = peelEdges gn (map (Pair x) (before (fst gn x)))"
  by (simp add: peelNode_def peelEdges_def foldl_map)

lemma foldl_peelNode: "foldl peelNode gn cur = peelEdges gn (layerEdges (fst gn) cur)"
proof (induction cur arbitrary: gn)
  case Nil
  show ?case by (simp add: layerEdges_def)
next
  case (Cons x cur)
  have "layerEdges (fst (peelNode gn x)) cur = layerEdges (fst gn) cur"
    by (simp add: layerEdges_def peelNode_eq)
  then show ?case
    by (simp add: Cons) (simp add: layerEdges_def peelNode_eq)
qed

lemma set_layerEdges: "set (layerEdges g cur) = {(x, y). x \<in> set cur \<and> y \<in> set (before (g x))}"
  by (auto simp: layerEdges_def)

lemma distinct_layerEdges:
  assumes "distinct cur" and "\<And>x. distinct (before (g x))"
  shows "distinct (layerEdges g cur)"
  using assms(1)
proof (induction cur)
  case Nil
  show ?case by (simp add: layerEdges_def)
next
  case (Cons x cur)
  have "layerEdges g (x # cur) = map (Pair x) (before (g x)) @ layerEdges g cur"
    by (simp add: layerEdges_def)
  moreover have "distinct (map (Pair x) (before (g x)))"
    using assms(2) by (simp add: distinct_map inj_on_def)
  moreover have "set (map (Pair x) (before (g x))) \<inter> set (layerEdges g cur) = {}"
    using Cons.prems by (auto simp: set_layerEdges)
  ultimately show ?case using Cons by simp
qed

lemma peelEdges_next:
  assumes "distinct ps"
    and "\<And>x y. (x, y) \<in> set ps \<Longrightarrow> x \<in> set (after (g y))"
    and "distinct nxt"
    and "\<And>y. y \<in> set nxt \<Longrightarrow> after (g y) = []"
  shows "distinct (snd (peelEdges (g, nxt) ps))
       \<and> set (snd (peelEdges (g, nxt) ps))
           = set nxt \<union> {y. after (g y) \<noteq> [] \<and> after (fst (peelEdges (g, nxt) ps) y) = []}"
  using assms
proof (induction ps arbitrary: g nxt)
  case Nil
  then show ?case by auto
next
  case (Cons xy ps)
  obtain x y where xy: "xy = (x, y)" by (cases xy)
  define g1 where "g1 = fst (peelEdge x (g, nxt) y)"
  define n1 where "n1 = snd (peelEdge x (g, nxt) y)"
  have g1: "\<And>z. after (g1 z) = (if z = y then removeAll x (after (g z)) else after (g z))"
    by (simp add: g1_def after_peelEdge)
  have n1: "n1 = (if after (g1 y) = [] then nxt @ [y] else nxt)"
    by (simp add: n1_def g1_def peelEdge_def Let_def)
  have xin: "x \<in> set (after (g y))" using Cons.prems(2)[of x y] xy by simp
  then have ynot: "y \<notin> set nxt" using Cons.prems(4)[of y] by auto
  have step: "peelEdges (g, nxt) (xy # ps) = peelEdges (g1, n1) ps"
    by (simp add: xy g1_def n1_def)
  have a1: "distinct ps" using Cons.prems(1) by simp
  have a2: "\<And>x' y'. (x', y') \<in> set ps \<Longrightarrow> x' \<in> set (after (g1 y'))"
  proof -
    fix x' y' assume in_ps: "(x', y') \<in> set ps"
    then have "x' \<in> set (after (g y'))" using Cons.prems(2)[of x' y'] by simp
    moreover have "(x', y') \<noteq> (x, y)" using Cons.prems(1) in_ps xy by auto
    ultimately show "x' \<in> set (after (g1 y'))" by (auto simp: g1)
  qed
  have a3: "distinct n1" using Cons.prems(3) ynot by (simp add: n1)
  have a4: "\<And>z. z \<in> set n1 \<Longrightarrow> after (g1 z) = []"
    using Cons.prems(4) by (auto simp: n1 g1 split: if_splits)
  note IH = Cons.IH[OF a1 a2 a3 a4]
  have sub: "\<And>z. after (fst (peelEdges (g1, n1) ps) z) = [] \<longleftrightarrow> (after (g1 z) = [] \<or> after (fst (peelEdges (g1, n1) ps) z) = [])"
    by (auto simp: after_peelEdges)
  have "set n1 \<union> {z. after (g1 z) \<noteq> [] \<and> after (fst (peelEdges (g1, n1) ps) z) = []}
      = set nxt \<union> {z. after (g z) \<noteq> [] \<and> after (fst (peelEdges (g1, n1) ps) z) = []}"
    using xin Cons.prems(4) by (auto simp: n1 g1 after_peelEdges split: if_splits)
  with IH show ?case unfolding step by simp
qed

lemma peelInv_init:
  assumes "wellFormed nodes g" and "distinct nodes"
  shows "peelInv nodes g \<lparr>pGraph = g, pCurrent = roots_of g nodes, pOrdered = []\<rparr> []"
  using assms
  by (auto simp: peelInv_def roots_of_def topological_def island_def)

lemma topological_append:
  assumes "topological g em" and "\<And>y. y \<in> set ys \<Longrightarrow> set (after (g y)) \<subseteq> set em"
  shows "topological g (em @ ys)"
  unfolding topological_def
proof (intro allI impI ballI)
  fix i x
  assume i: "i < length (em @ ys)" and x: "x \<in> set (after (g ((em @ ys) ! i)))"
  show "\<exists>j<i. (em @ ys) ! j = x"
  proof (cases "i < length em")
    case True
    with assms(1) x obtain j where "j < i" "em ! j = x"
      by (auto simp: topological_def nth_append)
    with True show ?thesis by (auto simp: nth_append intro!: exI[of _ j])
  next
    case False
    with i have "(em @ ys) ! i \<in> set ys" by (auto simp: nth_append)
    with assms(2) x have "x \<in> set em" by blast
    then obtain j where "j < length em" "em ! j = x" by (auto simp: in_set_conv_nth)
    with False show ?thesis by (auto simp: nth_append intro!: exI[of _ j])
  qed
qed

lemma peelInv_step:
  assumes wf: "wellFormed nodes g" and inv: "peelInv nodes g s em"
  shows "peelInv nodes g (peelLayer h s) (em @ sort_cmp (nodeOrder h g) (pCurrent s))"
proof -
  define cur where "cur = pCurrent s"
  define ps where "ps = layerEdges (pGraph s) cur"
  define gn where "gn = peelEdges (pGraph s, []) ps"
  have gn: "foldl peelNode (pGraph s, []) (pCurrent s) = gn"
    by (simp add: foldl_peelNode gn_def ps_def cur_def)
  from inv have ord: "pOrdered s = map (\<lambda>a. feature (g a)) em"
    and dist: "distinct (em @ cur)" and sub: "set (em @ cur) \<subseteq> set nodes"
    and aft: "\<And>y. after (pGraph s y) = filter (\<lambda>x. x \<notin> set em) (after (g y))"
    and bef: "\<And>z. before (pGraph s z) = before (g z)"
    and feat: "\<And>z. feature (pGraph s z) = feature (g z)"
    and empt: "\<And>y. y \<in> set (em @ cur) \<Longrightarrow> after (pGraph s y) = [] \<and> \<not> island g y"
    and stuck: "\<And>y. y \<in> set nodes \<Longrightarrow> after (pGraph s y) = [] \<Longrightarrow> y \<in> set (em @ cur) \<or> island g y"
    and topo: "topological g em"
    by (auto simp: peelInv_def cur_def)
  from wf have invv: "\<And>x y. (x \<in> set (before (g y))) = (y \<in> set (after (g x)))"
    and dists: "\<And>x. distinct (before (g x))" "\<And>x. distinct (after (g x))"
    and nodes: "\<And>x y. y \<in> set (after (g x)) \<Longrightarrow> x \<in> set nodes \<and> y \<in> set nodes"
    by (auto simp: wellFormed_def inverseViews_def)
  have set_ps: "set ps = {(x, y). x \<in> set cur \<and> y \<in> set (before (g x))}"
    by (simp add: ps_def set_layerEdges bef)
  have dps: "distinct ps"
    unfolding ps_def using dist dists(1) by (intro distinct_layerEdges) (auto simp: bef)
  have pin: "\<And>x y. (x, y) \<in> set ps \<Longrightarrow> x \<in> set (after (pGraph s y))"
    using dist by (auto simp: set_ps aft invv)
  have nxt: "distinct (snd gn)"
    "set (snd gn) = {y. after (pGraph s y) \<noteq> [] \<and> after (fst gn y) = []}"
    using peelEdges_next[of ps "pGraph s" "[]", OF dps pin] by (auto simp: gn_def)
  have aft': "\<And>y. after (fst gn y) = filter (\<lambda>x. x \<notin> set em \<union> set cur) (after (g y))"
    by (auto simp: gn_def after_peelEdges aft set_ps invv intro!: filter_cong)
  have bef': "\<And>z. before (fst gn z) = before (g z)" "\<And>z. feature (fst gn z) = feature (g z)"
    by (simp_all add: gn_def bef feat)
  let ?srt = "sort_cmp (nodeOrder h g) cur"
  have s': "peelLayer h s = \<lparr>pGraph = fst gn, pCurrent = snd gn,
       pOrdered = pOrdered s @ sort_cmp (compareIds h) (map (\<lambda>a. feature (fst gn a)) cur)\<rparr>"
    by (simp add: peelLayer_def gn Let_def cur_def)
  have o': "pOrdered s @ sort_cmp (compareIds h) (map (\<lambda>a. feature (fst gn a)) cur)
         = map (\<lambda>a. feature (g a)) (em @ ?srt)"
    by (simp add: ord bef' sort_cmp_map nodeOrder_def[abs_def])
  have nxt_nodes: "set (snd gn) \<subseteq> set nodes"
  proof
    fix y assume "y \<in> set (snd gn)"
    then have "after (pGraph s y) \<noteq> []" by (simp add: nxt)
    then have "after (g y) \<noteq> []" by (auto simp: aft)
    then obtain x where "x \<in> set (after (g y))" by (cases "after (g y)") auto
    then show "y \<in> set nodes" using nodes by blast
  qed
  have nxt_disj: "set (snd gn) \<inter> (set em \<union> set cur) = {}"
    using empt by (auto simp: nxt)
  have d': "distinct ((em @ ?srt) @ snd gn)"
    using dist nxt(1) nxt_disj by (auto simp: distinct_sort_cmp set_sort_cmp)
  have sub': "set ((em @ ?srt) @ snd gn) \<subseteq> set nodes"
    using sub nxt_nodes by (auto simp: set_sort_cmp)
  have e': "\<And>y. y \<in> set ((em @ ?srt) @ snd gn) \<Longrightarrow> after (fst gn y) = [] \<and> \<not> island g y"
  proof -
    fix y assume y: "y \<in> set ((em @ ?srt) @ snd gn)"
    show "after (fst gn y) = [] \<and> \<not> island g y"
    proof (cases "y \<in> set (snd gn)")
      case True
      then have "after (pGraph s y) \<noteq> []" "after (fst gn y) = []" by (simp_all add: nxt)
      then show ?thesis by (auto simp: aft island_def)
    next
      case False
      with y have yin: "y \<in> set (em @ cur)" by (auto simp: set_sort_cmp)
      from empt[OF this] have "filter (\<lambda>x. x \<notin> set em) (after (g y)) = []" "\<not> island g y"
        by (simp_all add: aft)
      then show ?thesis by (auto simp: aft' filter_empty_conv)
    qed
  qed
  have t': "topological g (em @ ?srt)"
  proof (rule topological_append[OF topo])
    fix y assume "y \<in> set ?srt"
    then have "y \<in> set (em @ cur)" by (simp add: set_sort_cmp)
    from empt[OF this] have "filter (\<lambda>x. x \<notin> set em) (after (g y)) = []" by (simp add: aft)
    then show "set (after (g y)) \<subseteq> set em" by (auto simp: filter_empty_conv)
  qed
  have st': "\<And>y. y \<in> set nodes \<Longrightarrow> after (fst gn y) = []
      \<Longrightarrow> y \<in> set ((em @ ?srt) @ snd gn) \<or> island g y"
  proof -
    fix y assume y: "y \<in> set nodes" "after (fst gn y) = []"
    show "y \<in> set ((em @ ?srt) @ snd gn) \<or> island g y"
    proof (cases "after (pGraph s y) = []")
      case True
      from stuck[OF y(1) True] show ?thesis by (auto simp: set_sort_cmp)
    next
      case False
      with y(2) have "y \<in> set (snd gn)" by (simp add: nxt)
      then show ?thesis by simp
    qed
  qed
  have a'': "\<And>y. after (fst gn y) = filter (\<lambda>x. x \<notin> set (em @ ?srt)) (after (g y))"
    by (simp add: aft' set_sort_cmp)
  show ?thesis
    unfolding peelInv_def s' cur_def[symmetric]
    using o' d' sub' a'' bef' e' st' t' by simp
qed

lemma peel_terminates:
  assumes wf: "wellFormed nodes g" and inv: "peelInv nodes g s em"
  shows "\<exists>t. while_option (\<lambda>s. pCurrent s \<noteq> []) (peelLayer h) s = Some t"
proof (rule measure_while_option_Some
    [where P = "\<lambda>s. \<exists>em. peelInv nodes g s em" and f = "\<lambda>s. length nodes - length (pOrdered s)"])
  show "\<exists>em. peelInv nodes g s em" using inv by blast
next
  fix s
  assume "\<exists>em. peelInv nodes g s em" and ne: "pCurrent s \<noteq> []"
  then obtain em where i: "peelInv nodes g s em" by blast
  let ?em' = "em @ sort_cmp (nodeOrder h g) (pCurrent s)"
  have i': "peelInv nodes g (peelLayer h s) ?em'" by (rule peelInv_step[OF wf i])
  from i have "distinct (em @ pCurrent s)" "set (em @ pCurrent s) \<subseteq> set nodes"
    by (simp_all add: peelInv_def)
  then have "length (em @ pCurrent s) \<le> length nodes"
    by (metis card_length card_mono distinct_card List.finite_set le_trans)
  moreover have "length (pOrdered s) = length em" using i by (simp add: peelInv_def)
  moreover have "length (pOrdered (peelLayer h s)) = length em + length (pCurrent s)"
    using i' by (simp add: peelInv_def length_sort_cmp)
  moreover have "1 \<le> length (pCurrent s)" using ne by (cases "pCurrent s") simp_all
  ultimately have "length nodes - length (pOrdered (peelLayer h s)) < length nodes - length (pOrdered s)"
    by (simp only: length_append)
  with i' show "(\<exists>em. peelInv nodes g (peelLayer h s) em)
     \<and> length nodes - length (pOrdered (peelLayer h s)) < length nodes - length (pOrdered s)"
    by blast
qed

lemma peel_result:
  assumes wf: "wellFormed nodes g" and inv: "peelInv nodes g s em"
    and res: "while_option (\<lambda>s. pCurrent s \<noteq> []) (peelLayer h) s = Some t"
  shows "\<exists>em. peelInv nodes g t em \<and> pCurrent t = []"
proof -
  have "\<exists>em. peelInv nodes g t em"
  proof (rule while_option_rule[where P = "\<lambda>s. \<exists>em. peelInv nodes g s em", OF _ res])
    show "\<exists>em. peelInv nodes g s em" using inv by blast
  next
    fix s assume "\<exists>em. peelInv nodes g s em"
    then obtain em where "peelInv nodes g s em" by blast
    from peelInv_step[OF wf this] show "\<exists>em. peelInv nodes g (peelLayer h s) em" by blast
  qed
  moreover have "pCurrent t = []" using while_option_stop[OF res] by simp
  ultimately show ?thesis by blast
qed

lemma after_addEdge:
  "after (addEdge l f g x) = (if x = l then Set_add f (after (g x)) else after (g x))"
  by (simp add: addEdge_def Let_def)

lemma before_addEdge:
  "before (addEdge l f g x) = (if x = f then Set_add l (before (g x)) else before (g x))"
  by (simp add: addEdge_def Let_def)

lemma feature_addEdge [simp]: "feature (addEdge l f g x) = feature (g x)"
  by (simp add: addEdge_def Let_def)

lemma set_Set_add [simp]: "set (Set_add x xs) = insert x (set xs)"
  by (auto simp: Set_add_def)

lemma distinct_Set_add [simp]: "distinct (Set_add x xs) = distinct xs"
  by (auto simp: Set_add_def)

lemma wellFormed_addEdge:
  assumes "wellFormed nodes g" and "l \<in> set nodes" and "f \<in> set nodes"
  shows "wellFormed nodes (addEdge l f g)"
  using assms
  unfolding wellFormed_def inverseViews_def
  by (auto simp: after_addEdge before_addEdge)

lemma resolveFirst_in_nodes:
  assumes "resolveFirst h g nodesById (map snd nodesById) firstId = Some first"
  shows "first \<in> set (map snd nodesById)"
proof (cases "Map_get nodesById firstId")
  case (Some a)
  with assms have "a = first" by (simp add: resolveFirst_def)
  moreover from Some have "(firstId, a) \<in> set nodesById"
    by (simp add: Map_get_def map_of_SomeD)
  ultimately show ?thesis by force
next
  case None
  with assms show ?thesis
    by (auto simp: resolveFirst_def find_Some_iff split: option.splits)
qed

lemma resolveFirst_cong:
  assumes "\<And>a. feature (g a) = feature (g' a)"
  shows "resolveFirst h g nodesById nodes firstId = resolveFirst h g' nodesById nodes firstId"
proof -
  have "hasLegacyId h g firstId = hasLegacyId h g' firstId"
    "hasCurrentId h g firstId = hasCurrentId h g' firstId"
    by (auto simp: hasLegacyId_def hasCurrentId_def assms fun_eq_iff)
  then show ?thesis by (auto simp: resolveFirst_def split: option.splits)
qed

lemma edges_fold:
  fixes nodesById :: "(string \<times> nat) list" and h :: heap
  defines "nodes \<equiv> map snd nodesById"
  defines "stp \<equiv> (\<lambda>later g firstId. case resolveFirst h g nodesById nodes firstId of
                None \<Rightarrow> g | Some first \<Rightarrow> addEdge later first g)"
  assumes "wellFormed nodes g" and "sameFeatures g g0" and "later \<in> set nodes"
  shows "wellFormed nodes (foldl (stp later) g fids)
     \<and> sameFeatures (foldl (stp later) g fids) g0
     \<and> (\<forall>x y. y \<in> set (after (g x)) \<longrightarrow> y \<in> set (after (foldl (stp later) g fids x)))
     \<and> (\<forall>fid \<in> set fids. \<forall>first. resolveFirst h g0 nodesById nodes fid = Some first
           \<longrightarrow> first \<in> set (after (foldl (stp later) g fids later)))"
  using assms(3,4)
proof (induction fids arbitrary: g)
  case Nil
  then show ?case by simp
next
  case (Cons fid fids)
  have same: "\<And>a. feature (g a) = feature (g0 a)" using Cons.prems(2) by (simp add: sameFeatures_def)
  have r: "resolveFirst h g nodesById nodes fid = resolveFirst h g0 nodesById nodes fid"
    by (rule resolveFirst_cong) (simp add: same)
  define g1 where "g1 = stp later g fid"
  have w1: "wellFormed nodes g1"
  proof (cases "resolveFirst h g nodesById nodes fid")
    case None
    then show ?thesis using Cons.prems(1) by (simp add: g1_def stp_def)
  next
    case (Some first)
    then have "first \<in> set nodes" unfolding nodes_def by (rule resolveFirst_in_nodes)
    with Some show ?thesis using Cons.prems(1) assms(5)
      by (simp add: g1_def stp_def wellFormed_addEdge)
  qed
  have s1: "sameFeatures g1 g0"
    using same by (auto simp: g1_def stp_def sameFeatures_def split: option.splits)
  have m1: "\<And>x y. y \<in> set (after (g x)) \<Longrightarrow> y \<in> set (after (g1 x))"
    by (auto simp: g1_def stp_def after_addEdge split: option.splits)
  have d1: "\<And>first. resolveFirst h g0 nodesById nodes fid = Some first \<Longrightarrow> first \<in> set (after (g1 later))"
    using r by (auto simp: g1_def stp_def after_addEdge)
  from Cons.IH[OF w1 s1] m1 d1 show ?case
    by (auto simp: g1_def[symmetric])
qed

lemma edgesOf_props:
  fixes nodesById :: "(string \<times> nat) list"
  defines "nodes \<equiv> map snd nodesById"
  assumes "wellFormed nodes g" and "sameFeatures g g0" and "later \<in> set nodes"
  shows "wellFormed nodes (edgesOf h nodesById nodes g later)"
    and "sameFeatures (edgesOf h nodesById nodes g later) g0"
    and "\<And>x y. y \<in> set (after (g x)) \<Longrightarrow> y \<in> set (after (edgesOf h nodesById nodes g later x))"
    and "\<And>first. declaresAfter h g0 nodesById later first
           \<Longrightarrow> first \<in> set (after (edgesOf h nodesById nodes g later later))"
proof -
  have i: "installsAfterOf h g later = installsAfterOf h g0 later"
    using assms(3) by (simp add: installsAfterOf_def sameFeatures_def)
  note f = edges_fold[where h = h and fids = "installsAfterOf h g0 later",
      OF assms(2)[unfolded nodes_def] assms(3) assms(4)[unfolded nodes_def], folded nodes_def]
  show "wellFormed nodes (edgesOf h nodesById nodes g later)"
    using f by (simp add: edgesOf_def i)
  show "sameFeatures (edgesOf h nodesById nodes g later) g0"
    using f by (simp add: edgesOf_def i)
  show "\<And>x y. y \<in> set (after (g x)) \<Longrightarrow> y \<in> set (after (edgesOf h nodesById nodes g later x))"
    using f by (simp add: edgesOf_def i)
  show "\<And>first. declaresAfter h g0 nodesById later first
           \<Longrightarrow> first \<in> set (after (edgesOf h nodesById nodes g later later))"
    using f by (auto simp: edgesOf_def i declaresAfter_def list_ex_iff nodes_def)
qed

lemma discover_fold:
  fixes nodesById :: "(string \<times> nat) list"
  defines "nodes \<equiv> map snd nodesById"
  assumes "wellFormed nodes g" and "sameFeatures g g0" and "set ls \<subseteq> set nodes"
  shows "wellFormed nodes (foldl (edgesOf h nodesById nodes) g ls)
     \<and> sameFeatures (foldl (edgesOf h nodesById nodes) g ls) g0
     \<and> (\<forall>x y. y \<in> set (after (g x)) \<longrightarrow> y \<in> set (after (foldl (edgesOf h nodesById nodes) g ls x)))
     \<and> (\<forall>later \<in> set ls. \<forall>first. declaresAfter h g0 nodesById later first
           \<longrightarrow> first \<in> set (after (foldl (edgesOf h nodesById nodes) g ls later)))"
  using assms(2,3,4)
proof (induction ls arbitrary: g)
  case Nil
  then show ?case by simp
next
  case (Cons l ls)
  have lin: "l \<in> set (map snd nodesById)" using Cons.prems(3) by (simp add: nodes_def)
  note e = edgesOf_props[where h = h, OF Cons.prems(1)[unfolded nodes_def] Cons.prems(2) lin,
      folded nodes_def]
  have sub: "set ls \<subseteq> set nodes" using Cons.prems(3) by simp
  from Cons.IH[OF e(1) e(2) sub] e(3) e(4) show ?case
    by auto
qed

lemma wellFormed_newNodes: "wellFormed nodes (newNodes features)"
  by (simp add: wellFormed_def inverseViews_def newNodes_def)

lemma discoverEdges_props:
  fixes nodesById :: "(string \<times> nat) list" and h :: heap and features :: "ref list"
  defines "nodes \<equiv> map snd nodesById"
  defines "g \<equiv> discoverEdges h nodesById nodes (newNodes features)"
  shows "wellFormed nodes g"
    and "sameFeatures g (newNodes features)"
    and "\<And>later first. later \<in> set nodes \<Longrightarrow> declaresAfter h (newNodes features) nodesById later first
           \<Longrightarrow> first \<in> set (after (g later))"
proof -
  have w: "wellFormed (map snd nodesById) (newNodes features)" by (rule wellFormed_newNodes)
  have s: "sameFeatures (newNodes features) (newNodes features)" by (simp add: sameFeatures_def)
  note d = discover_fold[where h = h and ls = "map snd nodesById", OF w s subset_refl,
      folded nodes_def]
  show "wellFormed nodes g" using d by (simp add: g_def discoverEdges_def)
  show "sameFeatures g (newNodes features)" using d by (simp add: g_def discoverEdges_def)
  show "\<And>later first. later \<in> set nodes \<Longrightarrow> declaresAfter h (newNodes features) nodesById later first
           \<Longrightarrow> first \<in> set (after (g later))"
    using d by (simp add: g_def discoverEdges_def)
qed

lemma map_of_Map_set: "map_of (Map_set m k v) = (map_of m)(k \<mapsto> v)"
  by (induction m) (auto simp: fun_eq_iff)

lemma Map_set_keys:
  "map fst (Map_set m k v) = (if k \<in> set (map fst m) then map fst m else map fst m @ [k])"
  by (induction m) force+

lemma distinct_Map_set: "distinct (map fst m) \<Longrightarrow> distinct (map fst (Map_set m k v))"
  by (simp add: Map_set_keys)

lemma keyed_Suc: "keyed h features (Suc n) = Map_set (keyed h features n) (keyAt h features n) n"
  by (simp add: keyed_def)

lemma distinct_keyed: "distinct (map fst (keyed h features n))"
  by (induction n) (simp_all add: keyed_def distinct_Map_set)

lemma map_of_keyed:
  "map_of (keyed h features n) k = Some a \<longleftrightarrow>
     a < n \<and> keyAt h features a = k \<and> (\<forall>b. a < b \<and> b < n \<longrightarrow> keyAt h features b \<noteq> k)"
proof (induction n)
  case 0
  show ?case by (simp add: keyed_def)
next
  case (Suc n)
  show ?case
  proof (cases "keyAt h features n = k")
    case True
    then show ?thesis
      by (auto simp: keyed_Suc map_of_Map_set less_Suc_eq)
  next
    case False
    then show ?thesis
      by (auto simp: keyed_Suc map_of_Map_set Suc less_Suc_eq)
  qed
qed

lemma nodesById_of_keyed: "nodesById_of h features = keyed h features (length features)"
  by (simp add: nodesById_of_def keyed_def newNodes_def keyAt_def)

lemma in_nodesById:
  "(k, a) \<in> set (nodesById_of h features) \<longleftrightarrow>
     a < length features \<and> keyAt h features a = k
     \<and> (\<forall>b. a < b \<and> b < length features \<longrightarrow> keyAt h features b \<noteq> k)"
  using map_of_keyed[of h features "length features" k a] distinct_keyed[of h features "length features"]
  by (simp add: nodesById_of_keyed)

lemma distinct_nodesById_keys: "distinct (map fst (nodesById_of h features))"
  by (simp add: nodesById_of_keyed distinct_keyed)

lemma nodesById_keys: "map fst (nodesById_of h features) = map (keyAt h features) (map snd (nodesById_of h features))"
  by (auto simp: in_nodesById)

lemma in_nodes:
  "a \<in> set (map snd (nodesById_of h features)) \<longleftrightarrow>
     a < length features
     \<and> (\<forall>b. a < b \<and> b < length features \<longrightarrow> keyAt h features b \<noteq> keyAt h features a)"
proof -
  have "a \<in> set (map snd (nodesById_of h features))
      \<longleftrightarrow> (\<exists>k. (k, a) \<in> set (nodesById_of h features))"
    by force
  then show ?thesis by (simp add: in_nodesById)
qed

lemma distinct_map_keyAt:
  "distinct (map (keyAt h features) (map snd (nodesById_of h features)))"
  using distinct_nodesById_keys[of h features] by (simp only: nodesById_keys[symmetric])

lemma distinct_nodes: "distinct (map snd (nodesById_of h features))"
  using distinct_map_keyAt[of h features] by (simp only: distinct_map)

lemma inj_on_keyAt: "inj_on (keyAt h features) (set (map snd (nodesById_of h features)))"
  using distinct_map_keyAt[of h features] by (simp only: distinct_map)

lemma sourceInformation_rewrite [simp]:
  "sourceInformation (rewriteLegacyIds h r x) = sourceInformation (h x)"
  by (simp add: rewriteLegacyIds_def split: option.splits)

lemma installsAfter_rewrite [simp]:
  "installsAfter (features0 (rewriteLegacyIds h r x)) = installsAfter (features0 (h x))"
  by (simp add: rewriteLegacyIds_def split: option.splits)

lemma sourceInformation_rewriteAll [simp]:
  "sourceInformation (rewriteAll h g ns x) = sourceInformation (h x)"
  unfolding rewriteAll_def by (induction ns arbitrary: h) simp_all

lemma installsAfter_rewriteAll [simp]:
  "installsAfter (features0 (rewriteAll h g ns x)) = installsAfter (features0 (h x))"
  unfolding rewriteAll_def by (induction ns arbitrary: h) simp_all

lemma featureKey_rewriteAll [simp]: "featureKey (rewriteAll h g ns) r = featureKey h r"
  by (simp add: featureKey_def)

lemma soft_characterization:
  fixes h :: heap and features :: "ref list"
  defines "nbi \<equiv> nodesById_of h features"
  defines "nodes \<equiv> map snd nbi"
  defines "h' \<equiv> rewriteAll h (newNodes features) nodes"
  defines "g \<equiv> discoverEdges h' nbi nodes (newNodes features)"
  shows "\<exists>em t.
      while_option (\<lambda>s. pCurrent s \<noteq> []) (peelLayer h')
         \<lparr>pGraph = g, pCurrent = roots_of g nodes, pOrdered = []\<rparr> = Some t
    \<and> peelInv nodes g t em \<and> pCurrent t = []
    \<and> distinct (emitted h' g nodes em) \<and> set (emitted h' g nodes em) \<subseteq> set nodes
    \<and> computeInstallationOrder h features =
        Some (h',
          if filter (\<lambda>a. a \<notin> set (emitted h' g nodes em)) nodes \<noteq> []
          then Inl (Error (''Features declare cyclic dependency: ''
                 @ join '', '' (map (keyAt h features)
                      (filter (\<lambda>a. a \<notin> set (emitted h' g nodes em)) nodes))))
          else Inr (map (\<lambda>a. features ! a) (emitted h' g nodes em)))"
proof -
  have wf: "wellFormed nodes g" and same: "sameFeatures g (newNodes features)"
    unfolding g_def nodes_def by (rule discoverEdges_props)+
  have feat: "\<And>a. feature (g a) = features ! a"
    using same by (simp add: sameFeatures_def newNodes_def)
  have dn: "distinct nodes" unfolding nodes_def nbi_def by (rule distinct_nodes)
  let ?s0 = "\<lparr>pGraph = g, pCurrent = roots_of g nodes, pOrdered = []\<rparr>"
  have i0: "peelInv nodes g ?s0 []" by (rule peelInv_init[OF wf dn])
  from peel_terminates[OF wf i0, of h'] obtain t where
    t: "while_option (\<lambda>s. pCurrent s \<noteq> []) (peelLayer h') ?s0 = Some t" by blast
  from peel_result[OF wf i0 t] obtain em where em: "peelInv nodes g t em" and c: "pCurrent t = []"
    by blast
  let ?isl = "sort_cmp (nodeOrder h' g) (islands_of g nodes)"
  let ?lst = "emitted h' g nodes em"
  have pg: "\<And>a. feature (pGraph t a) = features ! a" using em by (simp add: peelInv_def feat)
  have po: "pOrdered t = map (\<lambda>a. features ! a) em" using em by (simp add: peelInv_def feat)
  have isl: "sort_cmp (compareIds h') (map (\<lambda>a. feature (pGraph t a)) (islands_of g nodes))
      = map (\<lambda>a. features ! a) ?isl"
    by (simp add: pg sort_cmp_map nodeOrder_def[abs_def] feat)
  have ordered: "pOrdered t @ sort_cmp (compareIds h') (map (\<lambda>a. feature (pGraph t a)) (islands_of g nodes))
      = map (\<lambda>a. features ! a) ?lst"
    by (simp add: po isl emitted_def)
  have d: "distinct ?lst"
    using em c dn by (auto simp: emitted_def peelInv_def distinct_sort_cmp set_sort_cmp islands_of_def island_def)
  have sub: "set ?lst \<subseteq> set nodes"
    using em by (auto simp: emitted_def peelInv_def set_sort_cmp islands_of_def)
  have inj: "inj_on (keyAt h features) (set nodes)"
    unfolding nodes_def nbi_def by (rule inj_on_keyAt)
  have keys: "map (featureKey h') (map (\<lambda>a. features ! a) ?lst) = map (keyAt h features) ?lst"
    by (simp add: h'_def keyAt_def)
  have kk: "\<And>x. featureKey h' (features ! x) = keyAt h features x"
    by (simp add: h'_def keyAt_def)
  have "map fst nbi = map (keyAt h features) nodes"
    unfolding nodes_def nbi_def by (rule nodesById_keys)
  then have "missing_of h' nbi (map (\<lambda>a. features ! a) ?lst)
      = filter (\<lambda>k. k \<notin> keyAt h features ` set ?lst) (map (keyAt h features) nodes)"
    by (simp add: missing_of_def kk image_image)
  also have "\<dots> = map (keyAt h features) (filter (\<lambda>a. keyAt h features a \<notin> keyAt h features ` set ?lst) nodes)"
    by (simp add: filter_map comp_def)
  also have "filter (\<lambda>a. keyAt h features a \<notin> keyAt h features ` set ?lst) nodes
      = filter (\<lambda>a. a \<notin> set ?lst) nodes"
  proof (rule filter_cong[OF refl])
    fix a assume a: "a \<in> set nodes"
    show "(keyAt h features a \<notin> keyAt h features ` set ?lst) = (a \<notin> set ?lst)"
      using inj a sub by (auto simp: inj_on_def)
  qed
  finally have missing: "missing_of h' nbi (map (\<lambda>a. features ! a) ?lst)
      = map (keyAt h features) (filter (\<lambda>a. a \<notin> set ?lst) nodes)" .
  have "computeInstallationOrder h features =
        Some (h',
          if filter (\<lambda>a. a \<notin> set ?lst) nodes \<noteq> []
          then Inl (Error (''Features declare cyclic dependency: ''
                 @ join '', '' (map (keyAt h features) (filter (\<lambda>a. a \<notin> set ?lst) nodes))))
          else Inr (map (\<lambda>a. features ! a) ?lst))"
    unfolding computeInstallationOrder_def Let_def
    unfolding nbi_def[symmetric] nodes_def[symmetric]
    unfolding h'_def[symmetric]
    unfolding g_def[symmetric]
    unfolding t option.case ordered missing
    by simp
  with t em c d sub show ?thesis by blast
qed

lemma indexOf_nonneg: "0 \<le> indexOf xs x \<longleftrightarrow> x \<in> set xs"
  by (induction xs) auto





lemma extendRun_set:
  "extendRun cmp d prev run cs = Inr (run', rest) \<Longrightarrow>
     set run' \<union> set rest = set run \<union> set cs \<and> length run' + length rest = length run + length cs"
proof (induction cs arbitrary: prev run)
  case Nil
  then show ?case by auto
next
  case (Cons c cs)
  show ?case
  proof (cases "cmp c prev")
    case (Inl e)
    with Cons.prems show ?thesis by simp
  next
    case (Inr order)
    show ?thesis
    proof (cases "runBreaks d order")
      case True
      with Inr Cons.prems show ?thesis by auto
    next
      case False
      with Inr Cons.prems have "extendRun cmp d c (run @ [c]) cs = Inr (run', rest)" by simp
      from Cons.IH[OF this] show ?thesis by auto
    qed
  qed
qed

lemma countAndMakeRun_set:
  assumes "countAndMakeRun cmp x0 x1 xs = Inr (run, rest)"
  shows "set run \<union> set rest = insert x0 (insert x1 (set xs))
       \<and> length run + length rest = Suc (Suc (length xs))"
proof -
  from assms obtain order run0 where o: "cmp x1 x0 = Inr order"
    and e: "extendRun cmp (order < 0) x1 [x0, x1] xs = Inr (run0, rest)"
    and r: "run = (if order < 0 then rev run0 else run0)"
    by (auto simp: countAndMakeRun_def split: sum.splits prod.splits)
  from extendRun_set[OF e] r show ?thesis by auto
qed

lemma binarySearch_bound:
  "binarySearch cmp pivot xs left right = Inr k \<Longrightarrow> left \<le> right \<Longrightarrow> k \<le> right"
proof (induction cmp pivot xs left right rule: binarySearch.induct)
  case (1 cmp pivot xs left right)
  show ?case
  proof (cases "left < right")
    case False
    with "1.prems" show ?thesis by (simp add: binarySearch.simps)
  next
    case True
    let ?mid = "left + (right - left) div 2"
    show ?thesis
    proof (cases "cmp pivot (xs ! ?mid)")
      case (Inl e)
      with True "1.prems" show ?thesis by (simp add: binarySearch.simps)
    next
      case (Inr order)
      show ?thesis
      proof (cases "order < 0")
        case lt: True
        with True Inr "1.prems" have "binarySearch cmp pivot xs left ?mid = Inr k"
          by (simp add: binarySearch.simps)
        from "1.IH"(1)[OF True Inr lt this] True show ?thesis by simp
      next
        case ge: False
        with True Inr "1.prems" have "binarySearch cmp pivot xs (?mid + 1) right = Inr k"
          by (simp add: binarySearch.simps)
        from "1.IH"(2)[OF True Inr ge this] True show ?thesis by simp
      qed
    qed
  qed
qed

lemma binaryInsertionSort_set:
  "binaryInsertionSort cmp run rest = Inr ys \<Longrightarrow>
     set ys = set run \<union> set rest \<and> length ys = length run + length rest"
proof (induction rest arbitrary: run)
  case Nil
  then show ?case by simp
next
  case (Cons pivot rest)
  from Cons.prems obtain left where l: "binarySearch cmp pivot run 0 (length run) = Inr left"
    and r: "binaryInsertionSort cmp (take left run @ [pivot] @ drop left run) rest = Inr ys"
    by (auto split: sum.splits)
  have "set (take left run @ [pivot] @ drop left run) = insert pivot (set run)"
    by (metis Un_insert_right append_Cons append_Nil append_take_drop_id list.simps(15) set_append)
  moreover from binarySearch_bound[OF l] have "left \<le> length run" by simp
  then have "length (take left run @ [pivot] @ drop left run) = Suc (length run)" by simp
  ultimately show ?case using Cons.IH[OF r] by auto
qed

lemma sort_by_set:
  assumes a: "sort_by cmp xs = Inr ys"
  shows "set ys = set xs \<and> length ys = length xs"
proof (cases xs)
  case Nil
  with a show ?thesis by auto
next
  case c0: (Cons x0 t)
  show ?thesis
  proof (cases t)
    case Nil
    with c0 a show ?thesis by auto
  next
    case (Cons x1 xs')
    with c0 a obtain run rest where c: "countAndMakeRun cmp x0 x1 xs' = Inr (run, rest)"
      and b: "binaryInsertionSort cmp run rest = Inr ys"
      by (auto split: sum.splits prod.splits)
    from countAndMakeRun_set[OF c] binaryInsertionSort_set[OF b] c0 Cons show ?thesis by auto
  qed
qed


lemma installRounds_Nil: "installRounds p [] order tr = (tr, Inr order)"
  by (subst installRounds.simps) simp

lemma installRounds_stuck:
  assumes "worklist \<noteq> []" and "filter (ready order) worklist = []"
  shows "installRounds p worklist order tr =
     (tr @ [Log (''Round: '' @ idList (filter (ready order) worklist)) Info,
            Log (''Nodes remaining: '' @ idList worklist) Error_level],
      Inl (Error ''Circular dependency detected''))"
  by (subst installRounds.simps) (simp add: assms)

lemma installRounds_round:
  assumes "worklist \<noteq> []" and "filter (ready order) worklist \<noteq> []"
  shows "installRounds p worklist order tr =
     (case sort_by (fNodeStableSort (localeCompare p)) (filter (ready order) worklist) of
        Inl e \<Rightarrow> (tr @ [Log (''Round: '' @ idList (filter (ready order) worklist)) Info], Inl e)
      | Inr round \<Rightarrow>
          installRounds p (filter (notInRound (filter (ready order) worklist)) worklist)
            (order @ round)
            (tr @ [Log (''Round: '' @ idList (filter (ready order) worklist)) Info]))"
  by (subst installRounds.simps) (simp add: assms)



subsection \<open>Evaluation of the hard-dependency path on concrete inputs\<close>

lemma buildDependencyGraph_Cons:
  "buildDependencyGraph p (c # rest) acc tr =
     (if list_ex (\<lambda>f. fNodeEquality f c) acc
      then buildDependencyGraph p rest acc tr
      else
        (case fetchManifest p (id_of c) of
           None \<Rightarrow>
             Some (tr @ resolving c,
                   Inl (Error (''Manifest for '' @ quoted (id_of c) @ '' not found'')))
         | Some manifest \<Rightarrow>
             if falsy (dependsOnSerialized manifest)
             then buildDependencyGraph p rest (acc @ [c]) (tr @ resolving c)
             else
               (case parseEntries p (the (dependsOnSerialized manifest)) of
                  Inl e \<Rightarrow> Some (tr @ resolving c, Inl e)
                | Inr entries \<Rightarrow>
                    (case addDependencies p entries c rest of
                       Inl e \<Rightarrow> Some (tr @ resolving c, Inl e)
                     | Inr (c', worklist') \<Rightarrow>
                         Option.bind
                           (buildDependencyGraph p worklist' (acc @ [c']) (tr @ resolving c))
                           (\<lambda>r. case r of
                              (tr', Inl e) \<Rightarrow> Some (tr', Inl e)
                            | (tr', Inr (worklist'', acc'')) \<Rightarrow>
                                buildDependencyGraph p worklist'' acc'' tr')))))"
  by (subst buildDependencyGraph.simps) simp

lemmas hard_eval =
  buildDependencyGraph_Cons buildDependencyGraph_Nil computeDependsOnInstallationOrder_def
  buildDependencyGraphFromConfig_def installRounds.simps fNodeEquality_def JSON_stringify_def
  ready_def notInRound_def idList_def falsy_def dependsOnSerialized_def annotated_def
  compareCodeUnits_def fNodeStableSort_def resolving_def quoted_def


text \<open>
  The comparator is called with the later element first: of two nodes with the same id, one
  without options, the sort succeeds when the node without options comes first in the array
  and throws when it comes second.
\<close>

lemma sort_by_argument_order:
  "sort_by (fNodeStableSort compareCodeUnits) [FNode ''f'' Undefined [], FNode ''f'' (Bool True) []]
     = Inr [FNode ''f'' (Bool True) [], FNode ''f'' Undefined []]
   \<and> sort_by (fNodeStableSort compareCodeUnits) [FNode ''f'' (Bool True) [], FNode ''f'' Undefined []]
     = Inl TypeError"
  by code_simp

lemma Some_pairI: "map_option snd x = Some b \<Longrightarrow> x = Some (fst (the x), b)"
  by (cases x) auto

text \<open>
  On the chain registry both forms of the graph construction return the same events and the
  same node list.
\<close>

theorem buildDependencyGraph_eq_loop_witness:
  "buildDependencyGraph chainParams [FNode ''a'' (Rec []) []] [] []
     = Some (resolving (FNode ''a'' (Rec []) []) @ resolving (FNode ''b'' (Rec []) [])
               @ resolving (FNode ''c'' (Bool True) []),
             Inr ([], [FNode ''a'' (Rec []) [FNode ''b'' (Rec []) []],
                       FNode ''b'' (Rec []) [FNode ''c'' (Bool True) []],
                       FNode ''c'' (Bool True) []]))
   \<and> buildDependencyGraph_loop chainParams [FNode ''a'' (Rec []) []] [] []
     = Some (resolving (FNode ''a'' (Rec []) []) @ resolving (FNode ''b'' (Rec []) [])
               @ resolving (FNode ''c'' (Bool True) []),
             Inr ([], [FNode ''a'' (Rec []) [FNode ''b'' (Rec []) []],
                       FNode ''b'' (Rec []) [FNode ''c'' (Bool True) []],
                       FNode ''c'' (Bool True) []]))"
proof -
  have r: "buildDependencyGraph chainParams [FNode ''a'' (Rec []) []] [] []
     = Some (resolving (FNode ''a'' (Rec []) []) @ resolving (FNode ''b'' (Rec []) [])
               @ resolving (FNode ''c'' (Bool True) []),
             Inr ([], [FNode ''a'' (Rec []) [FNode ''b'' (Rec []) []],
                       FNode ''b'' (Rec []) [FNode ''c'' (Bool True) []],
                       FNode ''c'' (Bool True) []]))"
    by (simp add: hard_eval chainParams_def)
  with buildDependencyGraph_eq_loop[of chainParams "[FNode ''a'' (Rec []) []]" "[]" "[]"]
  show ?thesis by simp
qed

subsection \<open>Descriptors that share a key\<close>

lemma set_keptPositions:
  "set (keptPositions h features) = set (map snd (nodesById_of h features))"
proof -
  have "\<And>a. a \<in> set (keptPositions h features) \<longleftrightarrow> a \<in> set (map snd (nodesById_of h features))"
    unfolding in_nodes by (auto simp: keptPositions_def list_all_iff)
  then show ?thesis by blast
qed

lemma soft_success:
  assumes res: "computeInstallationOrder h features = Some (h', Inr order)"
  shows "\<exists>lst. order = map (\<lambda>a. features ! a) lst \<and> distinct lst
           \<and> set lst = set (map snd (nodesById_of h features))"
proof -
  define nbi where "nbi = nodesById_of h features"
  define nodes where "nodes = map snd nbi"
  define hh where "hh = rewriteAll h (newNodes features) nodes"
  define g where "g = discoverEdges hh nbi nodes (newNodes features)"
  from soft_characterization[of h features, folded nbi_def nodes_def, folded hh_def, folded g_def]
  obtain em where d: "distinct (emitted hh g nodes em)"
    and sub: "set (emitted hh g nodes em) \<subseteq> set nodes"
    and c: "computeInstallationOrder h features =
        Some (hh,
          if filter (\<lambda>a. a \<notin> set (emitted hh g nodes em)) nodes \<noteq> []
          then Inl (Error (''Features declare cyclic dependency: ''
                 @ join '', '' (map (keyAt h features)
                      (filter (\<lambda>a. a \<notin> set (emitted hh g nodes em)) nodes))))
          else Inr (map (\<lambda>a. features ! a) (emitted hh g nodes em)))"
    by blast
  from res c have all: "filter (\<lambda>a. a \<notin> set (emitted hh g nodes em)) nodes = []"
    and order: "order = map (\<lambda>a. features ! a) (emitted hh g nodes em)"
    by (auto split: if_splits)
  from all sub have "set (emitted hh g nodes em) = set nodes" by (auto simp: filter_empty_conv)
  with order d show ?thesis unfolding nodes_def nbi_def by blast
qed

text \<open>
  C7 (as amended). A later descriptor overwrites an earlier one with the same key in
  \<^verbatim>\<open>nodesById\<close>, and the graph nodes are the values of that mapping: of the descriptors
  that share a key only the last one is a graph node. When an order is returned it holds
  exactly the descriptors at the positions whose key does not occur again later, each once.
\<close>

theorem only_last_descriptor_of_a_key:
  assumes "computeInstallationOrder h features = Some (h', Inr order)"
  shows "distinct order
       \<and> set order = set (map (\<lambda>a. features ! a) (keptPositions h features))"
proof -
  from soft_success[OF assms] obtain lst where lst: "order = map (\<lambda>a. features ! a) lst"
    "distinct lst" "set lst = set (map snd (nodesById_of h features))" by blast
  have "inj_on (keyAt h features) (set lst)" unfolding lst(3) by (rule inj_on_keyAt)
  then have "inj_on (\<lambda>a. features ! a) (set lst)" by (auto simp: inj_on_def keyAt_def)
  with lst(1,2) have "distinct order" by (simp add: distinct_map)
  moreover have "set order = set (map (\<lambda>a. features ! a) (keptPositions h features))"
    using lst(1,3) by (simp add: set_keptPositions)
  ultimately show ?thesis by blast
qed

theorem only_last_descriptor_of_a_key_witness:
  "computeInstallationOrder heapSameKey [0, 1]
     = Some (fst (the (computeInstallationOrder heapSameKey [0, 1])), Inr [1])
   \<and> distinct [1 :: nat]
   \<and> set [1 :: nat] = set (map (\<lambda>a. [0, 1] ! a) (keptPositions heapSameKey [0, 1]))"
proof -
  have "map_option snd (computeInstallationOrder heapSameKey [0, 1]) = Some (Inr [1])"
    by code_simp
  then have a: "computeInstallationOrder heapSameKey [0, 1]
     = Some (fst (the (computeInstallationOrder heapSameKey [0, 1])), Inr [1])"
    by (rule Some_pairI)
  show ?thesis by (rule conjI[OF a only_last_descriptor_of_a_key[OF a]])
qed

text \<open>
  The claim as stated fails: of two descriptors with the key \<^verbatim>\<open>a\<close> the first one is
  not in the output.
\<close>

theorem earlier_descriptor_of_a_key_dropped:
  "map_option snd (computeInstallationOrder heapSameKey [0, 1]) = Some (Inr [1])
   \<and> (0 :: nat) \<notin> set [1]"
  by code_simp

subsection \<open>The \<^verbatim>\<open>before\<close> and \<^verbatim>\<open>after\<close> sets\<close>

lemma inverseViews_addEdge:
  "inverseViews g \<Longrightarrow> inverseViews (addEdge later first g)"
  unfolding inverseViews_def by (auto simp: after_addEdge before_addEdge)

lemma before_peelLayer: "before (pGraph (peelLayer h s) x) = before (pGraph s x)"
  by (simp add: peelLayer_def Let_def foldl_peelNode)

lemma inverseViews_peelStart: "inverseViews (pGraph (peelStart h features))"
proof -
  have "wellFormed (map snd (nodesById_of h features))
     (discoverEdges (rewriteAll h (newNodes features) (map snd (nodesById_of h features)))
        (nodesById_of h features) (map snd (nodesById_of h features)) (newNodes features))"
    by (rule discoverEdges_props)
  then show ?thesis by (simp add: peelStart_def Let_def wellFormed_def)
qed

text \<open>
  C9 (as amended). \<^verbatim>\<open>before\<close> and \<^verbatim>\<open>after\<close> are inverse views of one edge set while
  the graph is built: the property holds when the \<^verbatim>\<open>while\<close> loop is entered, and adding
  an edge keeps it. The loop deletes from the \<^verbatim>\<open>after\<close> sets only and leaves every
  \<^verbatim>\<open>before\<close> set as it is.
\<close>

theorem inverse_views_until_peeling:
  "inverseViews (pGraph (peelStart h features))
   \<and> (inverseViews g \<longrightarrow> inverseViews (addEdge later first g))
   \<and> before (pGraph (peelLayer h' s) x) = before (pGraph s x)"
  using inverseViews_peelStart inverseViews_addEdge before_peelLayer by blast

theorem inverse_views_until_peeling_witness:
  "inverseViews (newNodes [0, 1])
   \<and> inverseViews (addEdge 1 0 (newNodes [0, 1]))
   \<and> inverseViews (pGraph (peelStart heapAB [0, 1]))
   \<and> before (pGraph (peelLayer heapAB (peelStart heapAB [0, 1])) 0)
       = before (pGraph (peelStart heapAB [0, 1]) 0)"
proof -
  have "inverseViews (newNodes [0, 1])"
    by (simp add: inverseViews_def newNodes_def)
  with inverse_views_until_peeling[of heapAB "[0, 1]" "newNodes [0, 1]" 1 0 heapAB
      "peelStart heapAB [0, 1]" 0]
  show ?thesis by simp
qed

text \<open>
  The claim as stated fails during peeling: for b installing after a, the first pass of the
  loop empties \<^verbatim>\<open>b.after\<close> while b stays in \<^verbatim>\<open>a.before\<close>.
\<close>

theorem peeling_breaks_inverse_views:
  "pCurrent (peelStart heapAB [0, 1]) = [0]
   \<and> inverseOn [0, 1] (pGraph (peelStart heapAB [0, 1]))
   \<and> \<not> inverseOn [0, 1] (pGraph (peelLayer heapAB (peelStart heapAB [0, 1])))
   \<and> 1 \<in> set (before (pGraph (peelLayer heapAB (peelStart heapAB [0, 1])) 0))
   \<and> 0 \<notin> set (after (pGraph (peelLayer heapAB (peelStart heapAB [0, 1])) 1))"
  by code_simp

subsection \<open>What a call changes for its caller\<close>

lemma rewritable_rewriteLegacyIds [simp]:
  "rewritable (rewriteLegacyIds h r) x = rewritable h x"
  by (auto simp: rewritable_def rewriteLegacyIds_def split: option.splits)

lemma computeInstallationOrder_heap:
  assumes "computeInstallationOrder h features = Some (h', res)"
  shows "h' = rewriteAll h (newNodes features) (map snd (nodesById_of h features))"
  using assms soft_characterization[of h features] by auto

lemma rewriteLegacyIds_value:
  "rewriteLegacyIds h r x = (if x = r \<and> rewritable h r then registryQualified (h r) else h x)"
  by (auto simp: rewriteLegacyIds_def rewritable_def registryQualified_def split: option.splits)

lemma rewriteAll_value:
  assumes "distinct (map (\<lambda>a. feature (g a)) ns)"
  shows "rewriteAll h g ns x =
     (if x \<in> set (map (\<lambda>a. feature (g a)) ns) \<and> rewritable h x then registryQualified (h x) else h x)"
  using assms unfolding rewriteAll_def
proof (induction ns arbitrary: h)
  case Nil
  show ?case by simp
next
  case (Cons a ns)
  let ?h1 = "rewriteLegacyIds h (feature (g a))"
  from Cons.prems have d: "distinct (map (\<lambda>a. feature (g a)) ns)"
    and n: "feature (g a) \<notin> set (map (\<lambda>a. feature (g a)) ns)" by simp_all
  have "foldl (\<lambda>h a. rewriteLegacyIds h (feature (g a))) h (a # ns) x
      = foldl (\<lambda>h a. rewriteLegacyIds h (feature (g a))) ?h1 ns x" by simp
  also have "\<dots> = (if x \<in> set (map (\<lambda>a. feature (g a)) ns) \<and> rewritable ?h1 x
                    then registryQualified (?h1 x) else ?h1 x)"
    by (rule Cons.IH[OF d])
  also have "\<dots> = (if x \<in> set (map (\<lambda>a. feature (g a)) (a # ns)) \<and> rewritable h x
                    then registryQualified (h x) else h x)"
  proof (cases "x = feature (g a)")
    case True
    with n show ?thesis by (simp add: rewriteLegacyIds_value)
  next
    case False
    then show ?thesis by (simp add: rewriteLegacyIds_value)
  qed
  finally show ?case .
qed

lemma distinct_node_features:
  "distinct (map (\<lambda>a. feature (newNodes features a)) (map snd (nodesById_of h features)))"
proof -
  have "distinct (map (featureKey h) (map (\<lambda>a. features ! a) (map snd (nodesById_of h features))))"
    using distinct_map_keyAt[of h features] by (simp add: keyAt_def comp_def)
  then have "distinct (map (\<lambda>a. features ! a) (map snd (nodesById_of h features)))"
    using distinct_map by blast
  then show ?thesis by (simp add: newNodes_def comp_def)
qed

lemma normalized_value:
  "normalized h features r = (if r \<in> set (keptDescriptors h features) \<and> rewritable h r
      then registryQualified (h r) else h r)"
proof -
  have "set (map (\<lambda>a. feature (newNodes features a)) (map snd (nodesById_of h features)))
      = set (keptDescriptors h features)"
    using set_keptPositions[of h features] by (simp add: keptDescriptors_def newNodes_def image_image)
  then show ?thesis
    unfolding normalized_def
    using rewriteAll_value[OF distinct_node_features, where h = h and x = r and features1 = features and h1 = h] by simp
qed

lemma override_heap:
  assumes "computeOverrideInstallationOrder config h features = Some (h'', features', res')"
  shows "\<exists>res0. computeInstallationOrder h features = Some (h'', res0)"
  using assms
  by (auto simp: computeOverrideInstallationOrder_def split: option.splits prod.splits sum.splits)

text \<open>
  C8 (as amended). A call rewrites caller-owned descriptors in place; this is every
  descriptor after the call. A descriptor that is the descriptor of a graph node (the last of
  the input array with its key) and is an OCI feature with a non-empty \<^verbatim>\<open>legacyIds\<close> and a
  \<^verbatim>\<open>featureRef\<close> has \<^verbatim>\<open>legacyIds\<close> and \<^verbatim>\<open>currentId\<close> of \<^verbatim>\<open>features[0]\<close> replaced by their
  registry-qualified values, and no other field changed. Every other descriptor is exactly as
  before, also one that fulfils the condition but is overwritten in \<^verbatim>\<open>nodesById\<close> by a later
  descriptor with its key. This holds whether the call returns an order or throws, and
  \<^verbatim>\<open>computeOverrideInstallationOrder\<close> leaves the descriptors as
  \<^verbatim>\<open>computeInstallationOrder\<close> does.
\<close>

theorem descriptors_rewritten_in_place:
  "(computeInstallationOrder h features = Some (h', res)
      \<longrightarrow> h' r = (if r \<in> set (keptDescriptors h features) \<and> rewritable h r
                  then registryQualified (h r) else h r))
   \<and> (computeOverrideInstallationOrder config h features = Some (h'', features', res')
      \<longrightarrow> h'' r = (if r \<in> set (keptDescriptors h features) \<and> rewritable h r
                   then registryQualified (h r) else h r))"
proof -
  have soft: "\<And>h' res. computeInstallationOrder h features = Some (h', res)
      \<Longrightarrow> h' r = (if r \<in> set (keptDescriptors h features) \<and> rewritable h r
                  then registryQualified (h r) else h r)"
    using computeInstallationOrder_heap[of h features] normalized_value[of h features r]
    by (simp add: normalized_def)
  show ?thesis using soft override_heap[of config h features h'' features' res'] by blast
qed

theorem descriptors_rewritten_in_place_witness:
  "computeInstallationOrder heapShadowed [0, 1]
     = Some (fst (the (computeInstallationOrder heapShadowed [0, 1])), Inr [1])
   \<and> computeOverrideInstallationOrder (overrideConfig [''ghcr.io/owner/new'']) heapShadowed [0, 1]
     = Some (fst (the (computeOverrideInstallationOrder (overrideConfig [''ghcr.io/owner/new''])
                         heapShadowed [0, 1])),
             [0], Inr [1, 0])
   \<and> keptDescriptors heapShadowed [0, 1] = [1]
   \<and> rewritable heapShadowed 0 \<and> rewritable heapShadowed 1
   \<and> fst (the (computeInstallationOrder heapShadowed [0, 1])) 0 = heapShadowed 0
   \<and> fst (the (computeInstallationOrder heapShadowed [0, 1])) 1
       = registryQualified (heapShadowed 1)
   \<and> fst (the (computeOverrideInstallationOrder (overrideConfig [''ghcr.io/owner/new''])
                  heapShadowed [0, 1])) 0 = heapShadowed 0
   \<and> fst (the (computeOverrideInstallationOrder (overrideConfig [''ghcr.io/owner/new''])
                  heapShadowed [0, 1])) 1 = registryQualified (heapShadowed 1)
   \<and> legacyIds (features0 (registryQualified (heapShadowed 1))) = Some [''ghcr.io/owner/old'']
   \<and> currentId (features0 (registryQualified (heapShadowed 1))) = Some ''ghcr.io/owner/new''"
proof -
  let ?h' = "fst (the (computeInstallationOrder heapShadowed [0, 1]))"
  let ?h'' = "fst (the (computeOverrideInstallationOrder (overrideConfig [''ghcr.io/owner/new''])
                         heapShadowed [0, 1]))"
  have "map_option snd (computeInstallationOrder heapShadowed [0, 1]) = Some (Inr [1])"
    by code_simp
  then have a: "computeInstallationOrder heapShadowed [0, 1] = Some (?h', Inr [1])"
    by (rule Some_pairI)
  have "map_option snd (computeOverrideInstallationOrder (overrideConfig [''ghcr.io/owner/new''])
          heapShadowed [0, 1]) = Some ([0], Inr [1, 0])"
    by code_simp
  then have b: "computeOverrideInstallationOrder (overrideConfig [''ghcr.io/owner/new''])
      heapShadowed [0, 1] = Some (?h'', [0], Inr [1, 0])"
    by (rule Some_pairI)
  have k: "keptDescriptors heapShadowed [0, 1] = [1]" by code_simp
  have r0: "rewritable heapShadowed 0" and r1: "rewritable heapShadowed 1" by code_simp+
  have q: "legacyIds (features0 (registryQualified (heapShadowed 1))) = Some [''ghcr.io/owner/old'']
      \<and> currentId (features0 (registryQualified (heapShadowed 1))) = Some ''ghcr.io/owner/new''"
    by code_simp
  note t0 = descriptors_rewritten_in_place[of heapShadowed "[0, 1]" ?h' "Inr [1]" 0
      "overrideConfig [''ghcr.io/owner/new'']" ?h'' "[0]" "Inr [1, 0]"]
  note t1 = descriptors_rewritten_in_place[of heapShadowed "[0, 1]" ?h' "Inr [1]" 1
      "overrideConfig [''ghcr.io/owner/new'']" ?h'' "[0]" "Inr [1, 0]"]
  from t0 a b have "?h' 0 = (if 0 \<in> set (keptDescriptors heapShadowed [0, 1])
        \<and> rewritable heapShadowed 0 then registryQualified (heapShadowed 0) else heapShadowed 0)"
    and "?h'' 0 = (if 0 \<in> set (keptDescriptors heapShadowed [0, 1])
        \<and> rewritable heapShadowed 0 then registryQualified (heapShadowed 0) else heapShadowed 0)"
    by blast+
  then have c0: "?h' 0 = heapShadowed 0" "?h'' 0 = heapShadowed 0" unfolding k by simp_all
  from t1 a b have "?h' 1 = (if 1 \<in> set (keptDescriptors heapShadowed [0, 1])
        \<and> rewritable heapShadowed 1 then registryQualified (heapShadowed 1) else heapShadowed 1)"
    and "?h'' 1 = (if 1 \<in> set (keptDescriptors heapShadowed [0, 1])
        \<and> rewritable heapShadowed 1 then registryQualified (heapShadowed 1) else heapShadowed 1)"
    by blast+
  then have c1: "?h' 1 = registryQualified (heapShadowed 1)"
      "?h'' 1 = registryQualified (heapShadowed 1)" unfolding k using r1 by simp_all
  from a b k r0 r1 c0 c1 q show ?thesis by blast
qed

text \<open>
  The claim as stated fails: a call registry-qualifies \<^verbatim>\<open>legacyIds\<close> and \<^verbatim>\<open>currentId\<close>
  in the caller's descriptor.
\<close>

theorem descriptor_identifiers_rewritten:
  "legacyIds (features0 (heapLegacy 0)) = Some [''old'']
   \<and> currentId (features0 (heapLegacy 0)) = Some ''new''
   \<and> legacyIds (features0 (fst (the (computeInstallationOrder heapLegacy [0, 1])) 0))
       = Some [''ghcr.io/owner/old'']
   \<and> currentId (features0 (fst (the (computeInstallationOrder heapLegacy [0, 1])) 0))
       = Some ''ghcr.io/owner/new''
   \<and> legacyIds (features0 (fst (the (computeOverrideInstallationOrder (overrideConfig [''app''])
                                      heapLegacy [0, 1])) 0))
       = Some [''ghcr.io/owner/old'']
   \<and> currentId (features0 (fst (the (computeOverrideInstallationOrder (overrideConfig [''app''])
                                      heapLegacy [0, 1])) 0))
       = Some ''ghcr.io/owner/new''"
  by code_simp

subsection \<open>Circular dependencies\<close>

lemma soft_cycle_error:
  "computeInstallationOrder h features =
     Some (normalized h features,
       if unresolved h features \<noteq> []
       then Inl (Error (''Features declare cyclic dependency: ''
              @ join '', '' (map (keyAt h features) (unresolved h features))))
       else snd (the (computeInstallationOrder h features)))
   \<and> (unresolved h features = [] \<longrightarrow>
        (\<exists>order. computeInstallationOrder h features = Some (normalized h features, Inr order)))"
proof -
  define nbi where "nbi = nodesById_of h features"
  define nodes where "nodes = map snd nbi"
  define hh where "hh = rewriteAll h (newNodes features) nodes"
  define g where "g = discoverEdges hh nbi nodes (newNodes features)"
  from soft_characterization[of h features, folded nbi_def nodes_def, folded hh_def, folded g_def]
  obtain em t where
    t: "while_option (\<lambda>s. pCurrent s \<noteq> []) (peelLayer hh)
         \<lparr>pGraph = g, pCurrent = roots_of g nodes, pOrdered = []\<rparr> = Some t"
    and inv: "peelInv nodes g t em" and cur: "pCurrent t = []"
    and sub: "set (emitted hh g nodes em) \<subseteq> set nodes"
    and c: "computeInstallationOrder h features =
        Some (hh,
          if filter (\<lambda>a. a \<notin> set (emitted hh g nodes em)) nodes \<noteq> []
          then Inl (Error (''Features declare cyclic dependency: ''
                 @ join '', '' (map (keyAt h features)
                      (filter (\<lambda>a. a \<notin> set (emitted hh g nodes em)) nodes))))
          else Inr (map (\<lambda>a. features ! a) (emitted hh g nodes em)))"
    by blast
  have hh: "normalized h features = hh" by (simp add: normalized_def hh_def nodes_def nbi_def)
  have ps: "peelStart h features = \<lparr>pGraph = g, pCurrent = roots_of g nodes, pOrdered = []\<rparr>"
    by (simp add: peelStart_def Let_def g_def hh_def nodes_def nbi_def)
  have pe: "peelEnd h features = t" by (simp add: peelEnd_def hh ps t)
  have "filter (\<lambda>a. a \<notin> set (emitted hh g nodes em)) nodes
      = filter (\<lambda>a. after (pGraph t a) \<noteq> []) nodes"
  proof (rule filter_cong[OF refl])
    fix a assume a: "a \<in> set nodes"
    from inv have aft: "\<And>y. after (pGraph t y) = filter (\<lambda>x. x \<notin> set em) (after (g y))"
      and emp: "\<And>y. y \<in> set em \<Longrightarrow> after (pGraph t y) = []"
      and stuck: "\<And>y. y \<in> set nodes \<Longrightarrow> after (pGraph t y) = [] \<Longrightarrow> y \<in> set em \<or> island g y"
      by (auto simp: peelInv_def cur)
    show "(a \<notin> set (emitted hh g nodes em)) = (after (pGraph t a) \<noteq> [])"
    proof
      assume na: "a \<notin> set (emitted hh g nodes em)"
      then have "a \<notin> set em" "\<not> island g a"
        using a by (auto simp: emitted_def set_sort_cmp islands_of_def island_def)
      with stuck[OF a] show "after (pGraph t a) \<noteq> []" by blast
    next
      assume ne: "after (pGraph t a) \<noteq> []"
      then have "a \<notin> set em" using emp by blast
      moreover have "\<not> island g a" using ne by (auto simp: aft island_def)
      ultimately show "a \<notin> set (emitted hh g nodes em)"
        by (auto simp: emitted_def set_sort_cmp islands_of_def island_def)
    qed
  qed
  then have u: "filter (\<lambda>a. a \<notin> set (emitted hh g nodes em)) nodes = unresolved h features"
    by (simp add: unresolved_def pe nodes_def nbi_def)
  show ?thesis using c unfolding u hh by auto
qed

lemma extendRun_error:
  "extendRun cmp d prev run cs = Inl e \<Longrightarrow> \<exists>a b. cmp a b = Inl e"
proof (induction cs arbitrary: prev run)
  case Nil
  then show ?case by simp
next
  case (Cons c cs)
  show ?case
  proof (cases "cmp c prev")
    case (Inl e')
    with Cons.prems show ?thesis by auto
  next
    case (Inr order)
    show ?thesis
    proof (cases "runBreaks d order")
      case True
      with Inr Cons.prems show ?thesis by simp
    next
      case False
      with Inr Cons.prems have "extendRun cmp d c (run @ [c]) cs = Inl e" by simp
      then show ?thesis by (rule Cons.IH)
    qed
  qed
qed

lemma countAndMakeRun_error:
  assumes "countAndMakeRun cmp x0 x1 xs = Inl e"
  shows "\<exists>a b. cmp a b = Inl e"
proof (cases "cmp x1 x0")
  case (Inl e')
  with assms show ?thesis by (auto simp: countAndMakeRun_def)
next
  case (Inr order)
  with assms have "extendRun cmp (order < 0) x1 [x0, x1] xs = Inl e"
    by (auto simp: countAndMakeRun_def split: sum.splits prod.splits)
  then show ?thesis by (rule extendRun_error)
qed

lemma binarySearch_error:
  "binarySearch cmp pivot xs left right = Inl e \<Longrightarrow> \<exists>a b. cmp a b = Inl e"
proof (induction cmp pivot xs left right rule: binarySearch.induct)
  case (1 cmp pivot xs left right)
  show ?case
  proof (cases "left < right")
    case False
    with "1.prems" show ?thesis by (simp add: binarySearch.simps)
  next
    case True
    let ?mid = "left + (right - left) div 2"
    show ?thesis
    proof (cases "cmp pivot (xs ! ?mid)")
      case (Inl e')
      with True "1.prems" have "e' = e" by (simp add: binarySearch.simps)
      with Inl show ?thesis by auto
    next
      case (Inr order)
      show ?thesis
      proof (cases "order < 0")
        case lt: True
        with True Inr "1.prems" have "binarySearch cmp pivot xs left ?mid = Inl e"
          by (simp add: binarySearch.simps)
        from "1.IH"(1)[OF True Inr lt this] show ?thesis .
      next
        case ge: False
        with True Inr "1.prems" have "binarySearch cmp pivot xs (?mid + 1) right = Inl e"
          by (simp add: binarySearch.simps)
        from "1.IH"(2)[OF True Inr ge this] show ?thesis .
      qed
    qed
  qed
qed

lemma binaryInsertionSort_error:
  "binaryInsertionSort cmp run rest = Inl e \<Longrightarrow> \<exists>a b. cmp a b = Inl e"
proof (induction rest arbitrary: run)
  case Nil
  then show ?case by simp
next
  case (Cons pivot rest)
  show ?case
  proof (cases "binarySearch cmp pivot run 0 (length run)")
    case (Inl e')
    with Cons.prems have "e' = e" by simp
    with Inl show ?thesis by (auto dest: binarySearch_error)
  next
    case (Inr left)
    with Cons.prems have "binaryInsertionSort cmp (take left run @ [pivot] @ drop left run) rest = Inl e"
      by simp
    then show ?thesis by (rule Cons.IH)
  qed
qed

lemma sort_by_error:
  assumes a: "sort_by cmp xs = Inl e"
  shows "\<exists>a b. cmp a b = Inl e"
proof (cases xs)
  case Nil
  with a show ?thesis by auto
next
  case c0: (Cons x0 t)
  show ?thesis
  proof (cases t)
    case Nil
    with c0 a show ?thesis by auto
  next
    case (Cons x1 xs')
    show ?thesis
    proof (cases "countAndMakeRun cmp x0 x1 xs'")
      case (Inl e')
      with c0 Cons a have "e' = e" by simp
      with Inl show ?thesis by (auto dest: countAndMakeRun_error)
    next
      case (Inr rr)
      obtain run rest where rr: "rr = (run, rest)" by (cases rr)
      with c0 Cons a Inr have "binaryInsertionSort cmp run rest = Inl e" by simp
      then show ?thesis by (rule binaryInsertionSort_error)
    qed
  qed
qed

lemma fNodeStableSort_error: "fNodeStableSort lc a b = Inl e \<Longrightarrow> e = TypeError"
  by (auto simp: fNodeStableSort_def split: if_splits option.splits)

lemma installRounds_error:
  assumes "installRounds p worklist order tr = (tr', Inl (Error msg))"
  shows "msg = ''Circular dependency detected''
       \<and> (\<exists>remaining. remaining \<noteq> [] \<and> set remaining \<subseteq> set worklist
            \<and> tr' \<noteq> []
            \<and> last tr' = Log (''Nodes remaining: '' @ idList remaining) Error_level)"
  using assms
proof (induction p worklist order tr rule: installRounds.induct)
  case (1 p worklist installationOrder tr)
  show ?case
  proof (cases "worklist = []")
    case True
    with "1.prems" show ?thesis by (simp add: installRounds_Nil)
  next
    case False
    let ?round = "filter (ready installationOrder) worklist"
    show ?thesis
    proof (cases "?round = []")
      case True
      from installRounds_stuck[OF False True, of p tr] "1.prems" False
      show ?thesis by auto
    next
      case ne: False
      note unf = installRounds_round[OF False ne, of p tr]
      show ?thesis
      proof (cases "sort_by (fNodeStableSort (localeCompare p)) ?round")
        case (Inl e)
        from sort_by_error[OF Inl] have "e = TypeError" by (auto dest: fNodeStableSort_error)
        with unf "1.prems"(1) Inl show ?thesis by simp
      next
        case (Inr round)
        with unf "1.prems"(1) have rec:
          "installRounds p (filter (notInRound ?round) worklist) (installationOrder @ round)
                   (tr @ [Log (''Round: '' @ idList ?round) Info]) = (tr', Inl (Error msg))"
          by simp
        from "1.IH"[OF False ne Inr rec] show ?thesis by auto
      qed
    qed
  qed
qed

text \<open>
  C6 (as amended). Soft path: when nodes are left with a non-empty \<^verbatim>\<open>after\<close> set after
  peeling, \<^verbatim>\<open>computeInstallationOrder\<close> fails with the error
  \<^verbatim>\<open>Features declare cyclic dependency: \<close> followed by the keys of these nodes, and it
  fails in no other case. Hard
  path: when a round is empty while the worklist is not, the scheduling fails with the
  error \<^verbatim>\<open>Circular dependency detected\<close>, whose text names no node; the identifiers of
  the remaining nodes are the last line written to the log, at level Error. The scheduling
  raises no other \<^verbatim>\<open>Error\<close>.
\<close>

theorem circular_dependency_errors:
  "(unresolved h features \<noteq> [] \<longrightarrow>
      computeInstallationOrder h features =
        Some (normalized h features,
              Inl (Error (''Features declare cyclic dependency: ''
                     @ join '', '' (map (keyAt h features) (unresolved h features))))))
   \<and> (computeInstallationOrder h features = Some (h', Inl e) \<longrightarrow> unresolved h features \<noteq> [])
   \<and> (worklist \<noteq> [] \<and> filter (ready installationOrder) worklist = [] \<longrightarrow>
        installRounds p worklist installationOrder tr =
          (tr @ [Log ''Round: '' Info,
                 Log (''Nodes remaining: '' @ idList worklist) Error_level],
           Inl (Error ''Circular dependency detected'')))
   \<and> (installRounds p worklist installationOrder tr = (tr', Inl (Error msg)) \<longrightarrow>
        msg = ''Circular dependency detected''
        \<and> (\<exists>remaining. remaining \<noteq> [] \<and> set remaining \<subseteq> set worklist \<and> tr' \<noteq> []
              \<and> last tr' = Log (''Nodes remaining: '' @ idList remaining) Error_level))"
proof (intro conjI impI)
  assume "unresolved h features \<noteq> []"
  with soft_cycle_error[of h features]
  show "computeInstallationOrder h features =
        Some (normalized h features,
              Inl (Error (''Features declare cyclic dependency: ''
                     @ join '', '' (map (keyAt h features) (unresolved h features)))))"
    by simp
next
  assume "computeInstallationOrder h features = Some (h', Inl e)"
  with soft_cycle_error[of h features] show "unresolved h features \<noteq> []"
    by auto
next
  assume a: "worklist \<noteq> [] \<and> filter (ready installationOrder) worklist = []"
  then have "installRounds p worklist installationOrder tr =
     (tr @ [Log (''Round: '' @ idList (filter (ready installationOrder) worklist)) Info,
            Log (''Nodes remaining: '' @ idList worklist) Error_level],
      Inl (Error ''Circular dependency detected''))"
    by (intro installRounds_stuck) simp_all
  with a show "installRounds p worklist installationOrder tr =
          (tr @ [Log ''Round: '' Info,
                 Log (''Nodes remaining: '' @ idList worklist) Error_level],
           Inl (Error ''Circular dependency detected''))"
    by (simp add: idList_def)
next
  assume "installRounds p worklist installationOrder tr = (tr', Inl (Error msg))"
  from installRounds_error[OF this]
  show "msg = ''Circular dependency detected''"
    and "\<exists>remaining. remaining \<noteq> [] \<and> set remaining \<subseteq> set worklist \<and> tr' \<noteq> []
              \<and> last tr' = Log (''Nodes remaining: '' @ idList remaining) Error_level"
    by blast+
qed

theorem circular_dependency_errors_witness:
  "unresolved heapCycle [0, 1] \<noteq> []
   \<and> map_option snd (computeInstallationOrder heapCycle [0, 1])
       = Some (Inl (Error ''Features declare cyclic dependency: a, b''))
   \<and> cyclicGraph \<noteq> [] \<and> filter (ready []) cyclicGraph = []
   \<and> installRounds cyclicParams cyclicGraph [] []
       = ([Log ''Round: '' Info, Log ''Nodes remaining: featX, featZ'' Error_level],
          Inl (Error ''Circular dependency detected''))
   \<and> (\<exists>remaining. remaining \<noteq> [] \<and> set remaining \<subseteq> set cyclicGraph
         \<and> last [Log ''Round: '' Info, Log ''Nodes remaining: featX, featZ'' Error_level]
             = Log (''Nodes remaining: '' @ idList remaining) Error_level)"
proof -
  have u: "unresolved heapCycle [0, 1] \<noteq> []" by code_simp
  have k: "map (keyAt heapCycle [0, 1]) (unresolved heapCycle [0, 1]) = [''a'', ''b'']"
    by code_simp
  have w: "cyclicGraph \<noteq> [] \<and> filter (ready []) cyclicGraph = []"
    by (simp add: cyclicGraph_def ready_def)
  note t = circular_dependency_errors[of heapCycle "[0, 1]" "normalized heapCycle [0, 1]"
      "Error ''Features declare cyclic dependency: a, b''" cyclicGraph "[]" cyclicParams "[]"
      "[Log ''Round: '' Info, Log ''Nodes remaining: featX, featZ'' Error_level]"
      "''Circular dependency detected''"]
  from t u k have s: "map_option snd (computeInstallationOrder heapCycle [0, 1])
       = Some (Inl (Error ''Features declare cyclic dependency: a, b''))"
    by simp
  from t w have r: "installRounds cyclicParams cyclicGraph [] []
       = ([Log ''Round: '' Info, Log ''Nodes remaining: featX, featZ'' Error_level],
          Inl (Error ''Circular dependency detected''))"
    by (simp add: idList_def cyclicGraph_def)
  from t r have e: "\<exists>remaining. remaining \<noteq> [] \<and> set remaining \<subseteq> set cyclicGraph
         \<and> last [Log ''Round: '' Info, Log ''Nodes remaining: featX, featZ'' Error_level]
             = Log (''Nodes remaining: '' @ idList remaining) Error_level"
    by blast
  from u s w r e show ?thesis by blast
qed

text \<open>
  The claim as stated fails on the hard path: the payload of the error is a fixed text that
  holds neither identifier of the cycle.
\<close>

theorem hard_cycle_payload_without_identifiers:
  "map_option snd (computeDependsOnInstallationOrder cyclicParams cyclicConfig)
     = Some (Inl (Error ''Circular dependency detected''))
   \<and> \<not> sublist ''featX'' ''Circular dependency detected''
   \<and> \<not> sublist ''featZ'' ''Circular dependency detected''"
proof -
  have "map_option snd (computeDependsOnInstallationOrder cyclicParams cyclicConfig)
     = Some (Inl (Error ''Circular dependency detected''))"
    by (simp add: hard_eval cyclicParams_def cyclicConfig_def)
  moreover have "\<not> sublist ''featX'' ''Circular dependency detected''" by code_simp
  moreover have "\<not> sublist ''featZ'' ''Circular dependency detected''" by code_simp
  ultimately show ?thesis by blast
qed

subsection \<open>Duplicates in the order of the hard-dependency path\<close>

text \<open>
  The accumulator of \<^verbatim>\<open>_buildDependencyGraph\<close> never holds two structurally equal
  nodes, and the rounds only move nodes from the worklist to the order: an order that
  \<^verbatim>\<open>computeDependsOnInstallationOrder\<close> returns has no two structurally equal entries.
\<close>

lemma fNodeEquality_nodeKey: "fNodeEquality a b \<longleftrightarrow> nodeKey a = nodeKey b"
  by (simp add: fNodeEquality_def nodeKey_def)

lemma addDependencies_nodeKey:
  "addDependencies p entries c worklist = Inr (c', worklist') \<Longrightarrow> nodeKey c' = nodeKey c"
proof (induction entries arbitrary: c worklist)
  case Nil
  then show ?case by simp
next
  case (Cons e entries)
  obtain i opts where e: "e = (i, opts)" by (cases e)
  show ?case
  proof (cases "getRef p i")
    case None
    with Cons.prems e show ?thesis by simp
  next
    case (Some ref)
    with Cons.prems e have
      "addDependencies p entries
         (FNode (id_of c) (options c) (dependsOn c @ [FNode (resource ref) opts []]))
         (worklist @ [FNode (resource ref) opts []]) = Inr (c', worklist')"
      by simp
    from Cons.IH[OF this] show ?thesis by (simp add: nodeKey_def)
  qed
qed

lemma not_in_acc:
  "\<not> list_ex (\<lambda>f. fNodeEquality f c) acc \<Longrightarrow> nodeKey c \<notin> set (map nodeKey acc)"
  by (auto simp: list_ex_iff fNodeEquality_nodeKey)

lemma buildDependencyGraph_distinct:
  assumes "buildDependencyGraph p wl acc tr = Some r" and "r = (tr', Inr (wl', acc'))"
    and "distinct (map nodeKey acc)"
  shows "distinct (map nodeKey acc')"
  using assms
proof (induct p wl acc tr r arbitrary: tr' wl' acc'
    rule: buildDependencyGraph.raw_induct [rotated 1, consumes 1])
  case (1 f p wl acc tr r)
  note IH = 1(1) and step = 1(2) and r = 1(3) and d = 1(4)
  show ?case
  proof (cases wl)
    case Nil
    with step r d show ?thesis by simp
  next
    case (Cons c rest)
    show ?thesis
    proof (cases "list_ex (\<lambda>f. fNodeEquality f c) acc")
      case True
      with step Cons have "f p rest acc tr = Some r" by simp
      from IH[OF this r d] show ?thesis .
    next
      case nodup: False
      then have fresh: "nodeKey c \<notin> set (map nodeKey acc)" by (rule not_in_acc)
      show ?thesis
      proof (cases "fetchManifest p (id_of c)")
        case None
        with step Cons nodup r show ?thesis by simp
      next
        case (Some manifest)
        show ?thesis
        proof (cases "falsy (dependsOnSerialized manifest)")
          case True
          with step Cons nodup Some
          have "f p rest (acc @ [c]) (tr @ resolving c) = Some r" by simp
          moreover have "distinct (map nodeKey (acc @ [c]))" using d fresh by simp
          ultimately show ?thesis using IH r by blast
        next
          case truthy: False
          show ?thesis
          proof (cases "parseEntries p (the (dependsOnSerialized manifest))")
            case (Inl e)
            with step Cons nodup Some truthy r show ?thesis by simp
          next
            case (Inr entries)
            show ?thesis
            proof (cases "addDependencies p entries c rest")
              case (Inl e)
              with step Cons nodup Some truthy Inr r show ?thesis by simp
            next
              case deps: (Inr cw)
              obtain c' worklist' where cw: "cw = (c', worklist')" by (cases cw)
              from deps cw have "nodeKey c' = nodeKey c" by (auto dest: addDependencies_nodeKey)
              with d fresh have d1: "distinct (map nodeKey (acc @ [c']))" by simp
              from step Cons nodup Some truthy Inr deps cw
              obtain r1 where r1: "f p worklist' (acc @ [c']) (tr @ resolving c) = Some r1"
                and k: "(case r1 of (tr', Inl e) \<Rightarrow> Some (tr', Inl e)
                         | (tr', Inr (worklist'', acc'')) \<Rightarrow> f p worklist'' acc'' tr') = Some r"
                by (auto split: Option.bind_splits)
              show ?thesis
              proof (cases r1)
                case (Pair tr1 res)
                show ?thesis
                proof (cases res)
                  case (Inl e)
                  with k Pair r show ?thesis by simp
                next
                  case (Inr wa)
                  obtain w a where wa: "wa = (w, a)" by (cases wa)
                  from IH[OF r1 _ d1] Pair Inr wa have "distinct (map nodeKey a)" by simp
                  moreover from k Pair Inr wa have "f p w a tr1 = Some r" by simp
                  ultimately show ?thesis using IH r by blast
                qed
              qed
            qed
          qed
        qed
      qed
    qed
  qed
qed

lemma sort_by_distinct:
  assumes "sort_by cmp xs = Inr ys" and "distinct (map f xs)"
  shows "distinct (map f ys)"
proof -
  from sort_by_set[OF assms(1)] have s: "set ys = set xs" and l: "length ys = length xs" by simp_all
  from assms(2) have dx: "distinct xs" and inj: "inj_on f (set xs)" by (simp_all add: distinct_map)
  from dx have "card (set xs) = length xs" by (rule distinct_card)
  with s l have "card (set ys) = length ys" by simp
  then have "distinct ys" by (rule card_distinct)
  with inj s show ?thesis by (simp add: distinct_map)
qed

lemma installRounds_distinct:
  assumes "installRounds p worklist order0 tr = (tr', Inr order)"
    and "distinct (map nodeKey (order0 @ worklist))"
  shows "distinct (map nodeKey order) \<and> set order = set order0 \<union> set worklist"
  using assms
proof (induction p worklist order0 tr rule: installRounds.induct)
  case (1 p worklist installationOrder tr)
  show ?case
  proof (cases "worklist = []")
    case True
    with "1.prems" show ?thesis by (simp add: installRounds_Nil)
  next
    case False
    let ?round = "filter (ready installationOrder) worklist"
    have ne: "?round \<noteq> []"
    proof
      assume "?round = []"
      from installRounds_stuck[OF False this, of p tr] "1.prems"(1) show False by simp
    qed
    note unf = installRounds_round[OF False ne, of p tr]
    show ?thesis
    proof (cases "sort_by (fNodeStableSort (localeCompare p)) ?round")
      case (Inl e)
      with unf "1.prems"(1) show ?thesis by simp
    next
      case (Inr round)
      with unf "1.prems"(1) have rec:
        "installRounds p (filter (notInRound ?round) worklist) (installationOrder @ round)
                 (tr @ [Log (''Round: '' @ idList ?round) Info]) = (tr', Inr order)"
        by simp
      from "1.prems"(2) have dw: "distinct (map nodeKey worklist)"
        and injw: "inj_on nodeKey (set worklist)"
        by (simp_all add: distinct_map)
      have rest: "filter (notInRound ?round) worklist = filter (\<lambda>n. \<not> ready installationOrder n) worklist"
      proof (rule filter_cong[OF refl])
        fix n assume n: "n \<in> set worklist"
        show "notInRound ?round n = (\<not> ready installationOrder n)"
          using injw n by (auto simp: notInRound_def list_ex_iff fNodeEquality_nodeKey inj_on_def)
      qed
      from sort_by_set[OF Inr] have sr: "set round = set ?round" by simp
      have "distinct (map nodeKey ?round)" using dw by (simp add: distinct_map_filter)
      with Inr have dr: "distinct (map nodeKey round)" by (rule sort_by_distinct)
      let ?rest = "filter (\<lambda>n. \<not> ready installationOrder n) worklist"
      from "1.prems"(2) have d0: "distinct (map nodeKey installationOrder)"
        and disj: "nodeKey ` set installationOrder \<inter> nodeKey ` set worklist = {}"
        by simp_all
      have d2: "distinct (map nodeKey ?rest)" using dw by (simp add: distinct_map_filter)
      have i1: "nodeKey ` set installationOrder \<inter> nodeKey ` set round = {}"
        using disj sr by auto
      have i2: "nodeKey ` set installationOrder \<inter> nodeKey ` set ?rest = {}"
        using disj by auto
      have i3: "nodeKey ` set round \<inter> nodeKey ` set ?rest = {}"
      proof (rule ccontr)
        assume "nodeKey ` set round \<inter> nodeKey ` set ?rest \<noteq> {}"
        then obtain k where "k \<in> nodeKey ` set round" "k \<in> nodeKey ` set ?rest" by blast
        then obtain x y where x: "x \<in> set round" and y: "y \<in> set ?rest"
          and k: "nodeKey x = nodeKey y" by (metis imageE)
        from x sr have xw: "x \<in> set worklist" "ready installationOrder x" by simp_all
        from y have yw: "y \<in> set worklist" "\<not> ready installationOrder y" by simp_all
        from injw k xw(1) yw(1) have "x = y" by (rule inj_onD)
        with xw(2) yw(2) show False by simp
      qed
      have d': "distinct (map nodeKey ((installationOrder @ round)
                   @ filter (notInRound ?round) worklist))"
        unfolding rest using d0 dr d2 i1 i2 i3 by (simp add: Int_Un_distrib Int_Un_distrib2)
      from "1.IH"[OF False ne Inr rec d'] sr show ?thesis unfolding rest by auto
    qed
  qed
qed

lemma hard_order_no_duplicates:
  assumes "computeDependsOnInstallationOrder p config = Some (tr, Inr order)"
  shows "distinct (map nodeKey order)"
proof -
  from assms obtain tr0 worklist where
    g: "buildDependencyGraphFromConfig p config = Some (tr0, Inr worklist)"
    and i: "installRounds p worklist [] (tr0 @ [Log (''Starting with: '' @ idList worklist) Info])
          = (tr, Inr order)"
    by (auto simp: computeDependsOnInstallationOrder_def split: option.splits prod.splits sum.splits)
  from g obtain roots wl' where
    "buildDependencyGraph p roots [] [] = Some (tr0, Inr (wl', worklist))"
    by (auto simp: buildDependencyGraphFromConfig_def split: option.splits prod.splits sum.splits)
  then have "distinct (map nodeKey worklist)"
    by (rule buildDependencyGraph_distinct[OF _ refl]) simp
  with installRounds_distinct[OF i] show ?thesis by simp
qed

subsection \<open>Topological validity\<close>

















end
